theory Spec2Isabelle
  imports
    Main
    "HOL-Library.Word"
    "HOL-Library.Monad_Syntax"
    "HOL-Library.Sublist"
    "HOL-Library.List_Lexorder"
begin

section \<open>Data model (node.go, tree.go)\<close>

text \<open>
  Go's \<open>byte\<close> is an unsigned 8-bit word, a key is a byte slice. Go's \<open>int\<close> is modelled
  as \<open>int\<close>: the counters of this program (depth, prefixLen, size) stay far below
  \<open>2^63\<close>, but they can become negative, which \<open>nat\<close> would hide.

  A run-time panic of the Go program (index out of range, slice bounds out of range,
  nil dereference) is the value \<open>None\<close> of the option monad; \<open>Some x\<close> is a normal return.

  A value is Go's \<open>interface{}\<close>: \<open>None\<close> is the nil interface, \<open>Some v\<close> a payload.
\<close>

type_synonym byte = "8 word"
type_synonym Key = "byte list"

datatype NodeType = LeafNode | Node4 | Node16 | Node48 | Node256

definition node4Min :: int where "node4Min = 2"
definition node4Max :: int where "node4Max = 4"
definition node16Min :: int where "node16Min = 5"
definition node16Max :: int where "node16Max = 16"
definition node48Min :: int where "node48Min = 17"
definition node48Max :: int where "node48Max = 48"
definition node256Min :: int where "node256Min = 49"
definition node256Max :: int where "node256Max = 256"
definition maxPrefixLen :: int where "maxPrefixLen = 10"

text \<open>The struct \<open>node\<close>: the metadata shared by all inner nodes.\<close>

record node =
  size_n :: int
  prefixLen :: int
  prefix_n :: "byte list"

text \<open>
  An \<open>artNode\<close> is a type tag with an untyped pointer to the payload. The payload of a
  leaf is \<open>leafNode {key, value}\<close>; the payload of an inner node is the metadata, the
  \<open>keys\<close> array (\<open>[4]byte\<close>, \<open>[16]byte\<close>, \<open>[256]byte\<close>; absent in a node256, modelled
  as \<open>[]\<close>) and the \<open>children\<close> array (4, 16, 49 or 256 pointers, \<open>None\<close> for nil).
  Every node is referenced from exactly one slot, so in-place mutation of a node is
  the replacement of the slot's content.
\<close>

datatype 'v artNode =
    Leaf Key "'v option"
  | Inner NodeType node "byte list" "'v artNode option list"

record 'v tree =
  root :: "'v artNode option"
  size_t :: int

definition newArt :: "'v tree" where
  "newArt = \<lparr>root = None, size_t = 0\<rparr>"

subsection \<open>Indexing and slicing as Go does it\<close>

definition at :: "'a list \<Rightarrow> int \<Rightarrow> 'a option" where
  "at xs i = (if 0 \<le> i \<and> i < int (length xs) then Some (xs ! nat i) else None)"

definition store :: "'a list \<Rightarrow> int \<Rightarrow> 'a \<Rightarrow> 'a list option" where
  "store xs i v = (if 0 \<le> i \<and> i < int (length xs) then Some (xs[nat i := v]) else None)"

definition slice_from :: "'a list \<Rightarrow> int \<Rightarrow> 'a list option" where
  "slice_from xs i = (if 0 \<le> i \<and> i \<le> int (length xs) then Some (drop (nat i) xs) else None)"

text \<open>\<open>byte(i)\<close> for an \<open>int\<close>, and \<open>int(b)\<close> for a byte.\<close>

definition byte_of :: "int \<Rightarrow> byte" where
  "byte_of i = word_of_int i"

definition int_of :: "byte \<Rightarrow> int" where
  "int_of b = uint b"

subsection \<open>Constructors\<close>

definition zeroNode :: node where
  "zeroNode = \<lparr>size_n = 0, prefixLen = 0, prefix_n = replicate 10 0\<rparr>"

definition newLeafNode :: "Key \<Rightarrow> 'v option \<Rightarrow> 'v artNode" where
  "newLeafNode key v = Leaf key v"

definition newNode4 :: "'v artNode" where
  "newNode4 = Inner Node4 zeroNode (replicate 4 0) (replicate 4 None)"

definition newNode16 :: "'v artNode" where
  "newNode16 = Inner Node16 zeroNode (replicate 16 0) (replicate 16 None)"

definition newNode48 :: "'v artNode" where
  "newNode48 = Inner Node48 zeroNode (replicate 256 0) (replicate 49 None)"

definition newNode256 :: "'v artNode" where
  "newNode256 = Inner Node256 zeroNode [] (replicate 256 None)"

subsection \<open>Accessors\<close>

fun nodeType :: "'v artNode \<Rightarrow> NodeType" where
  "nodeType (Leaf k v) = LeafNode"
| "nodeType (Inner ty m ks cs) = ty"

fun isLeaf :: "'v artNode \<Rightarrow> bool" where
  "isLeaf n = (nodeType n = LeafNode)"

fun isMatch :: "'v artNode \<Rightarrow> Key \<Rightarrow> bool" where
  "isMatch (Leaf k v) key = (if length k \<noteq> length key then False else k = key)"
| "isMatch (Inner ty m ks cs) key = False"

fun minSize :: "NodeType \<Rightarrow> int" where
  "minSize Node4 = node4Min"
| "minSize Node16 = node16Min"
| "minSize Node48 = node48Min"
| "minSize Node256 = node256Min"
| "minSize LeafNode = 0"

fun maxSize :: "NodeType \<Rightarrow> int" where
  "maxSize Node4 = node4Max"
| "maxSize Node16 = node16Max"
| "maxSize Node48 = node48Max"
| "maxSize Node256 = node256Max"
| "maxSize LeafNode = 0"

definition isFull :: "NodeType \<Rightarrow> node \<Rightarrow> bool" where
  "isFull ty m = (size_n m = maxSize ty)"

subsection \<open>memcpy and memmove (tree.go)\<close>

function memcpy_loop :: "byte list \<Rightarrow> byte list \<Rightarrow> int \<Rightarrow> int \<Rightarrow> byte list" where
  "memcpy_loop dst src numBytes i =
     (if 0 \<le> i \<and> i < numBytes \<and> i < int (length src) \<and> i < int (length dst)
      then memcpy_loop (dst[nat i := src ! nat i]) src numBytes (i + 1)
      else dst)"
  by pat_completeness auto
termination
  by (relation "measure (\<lambda>(dst, src, n, i). nat (int (length dst) - i))") auto

definition memcpy :: "byte list \<Rightarrow> byte list \<Rightarrow> int \<Rightarrow> byte list" where
  "memcpy dst src numBytes = memcpy_loop dst src numBytes 0"

function memmove_loop :: "byte list \<Rightarrow> byte list \<Rightarrow> int \<Rightarrow> int \<Rightarrow> byte list option" where
  "memmove_loop dst src numBytes i =
     (if i < numBytes
      then (case at src i of
              None \<Rightarrow> None
            | Some b \<Rightarrow> (case store dst i b of
                          None \<Rightarrow> None
                        | Some dst' \<Rightarrow> memmove_loop dst' src numBytes (i + 1)))
      else Some dst)"
  by pat_completeness auto
termination
  by (relation "measure (\<lambda>(dst, src, n, i). nat (n - i))") auto

definition memmove :: "byte list \<Rightarrow> byte list \<Rightarrow> int \<Rightarrow> byte list option" where
  "memmove dst src numBytes = memmove_loop dst src numBytes 0"

text \<open>
  \<open>memmove(node.prefix[:], node.prefix[off:], n)\<close>: source and destination are the same
  array, the source view starting \<open>off\<close> bytes in. Each step reads the array as the
  steps before have left it.
\<close>

function memmove_within_loop :: "byte list \<Rightarrow> int \<Rightarrow> int \<Rightarrow> int \<Rightarrow> byte list option" where
  "memmove_within_loop arr off numBytes i =
     (if i < numBytes
      then (if 0 \<le> i \<and> off + i < int (length arr)
            then memmove_within_loop (arr[nat i := arr ! nat (off + i)]) off numBytes (i + 1)
            else None)
      else Some arr)"
  by pat_completeness auto
termination
  by (relation "measure (\<lambda>(arr, off, n, i). nat (n - i))") auto

definition memmove_within :: "byte list \<Rightarrow> int \<Rightarrow> int \<Rightarrow> byte list option" where
  "memmove_within arr off numBytes =
     (if 0 \<le> off \<and> off \<le> int (length arr) then memmove_within_loop arr off numBytes 0 else None)"

subsection \<open>minimum\<close>

function first_nonzero :: "byte list \<Rightarrow> int \<Rightarrow> int option" where
  "first_nonzero ks i =
     (case at ks i of None \<Rightarrow> None
      | Some k \<Rightarrow> if k = 0 then first_nonzero ks (i + 1) else Some i)"
  by pat_completeness auto
termination
  by (relation "measure (\<lambda>(ks, i). nat (int (length ks) - i))")
     (auto simp: at_def split: if_splits)

function first_present :: "'a option list \<Rightarrow> int \<Rightarrow> int option" where
  "first_present cs i =
     (case at cs i of None \<Rightarrow> None
      | Some c \<Rightarrow> if c = None then first_present cs (i + 1) else Some i)"
  by pat_completeness auto
termination
  by (relation "measure (\<lambda>(cs, i). nat (int (length cs) - i))")
     (auto simp: at_def split: if_splits)

lemma at_size_less:
  "at cs i = Some c \<Longrightarrow> size_option size c < Suc (size_list (size_option size) cs)"
proof -
  assume "at cs i = Some c"
  then have "c \<in> set cs"
    by (auto simp: at_def split: if_splits)
  then have "size_option size c \<le> size_list (size_option size) cs"
    by (rule size_list_estimation') simp
  then show ?thesis by simp
qed

function minimum :: "'v artNode option \<Rightarrow> 'v artNode option option" where
  "minimum None = Some None"
| "minimum (Some (Leaf k v)) = Some (Some (Leaf k v))"
| "minimum (Some (Inner ty m ks cs)) =
     (case ty of
        LeafNode \<Rightarrow> Some (Some (Inner ty m ks cs))
      | Node4 \<Rightarrow> (case at cs 0 of None \<Rightarrow> None | Some c \<Rightarrow> minimum c)
      | Node16 \<Rightarrow> (case at cs 0 of None \<Rightarrow> None | Some c \<Rightarrow> minimum c)
      | Node48 \<Rightarrow>
          (case first_nonzero ks 0 of None \<Rightarrow> None
           | Some i \<Rightarrow>
               (case at ks i of None \<Rightarrow> None
                | Some k \<Rightarrow> (case at cs (int_of k) of None \<Rightarrow> None | Some c \<Rightarrow> minimum c)))
      | Node256 \<Rightarrow>
          (case first_present cs 0 of None \<Rightarrow> None
           | Some i \<Rightarrow> (case at cs i of None \<Rightarrow> None | Some c \<Rightarrow> minimum c)))"
  by pat_completeness auto
termination
  by (relation "measure (size_option size)") (auto dest: at_size_less)

text \<open>\<open>n.leafNode().key\<close>: a nil receiver panics; \<open>minimum\<close> returns a leaf or nil.\<close>

fun leafKey :: "'v artNode option \<Rightarrow> Key option" where
  "leafKey None = None"
| "leafKey (Some (Leaf k v)) = Some k"
| "leafKey (Some (Inner ty m ks cs)) = None"

definition minimumKey :: "'v artNode \<Rightarrow> Key option" where
  "minimumKey n = (case minimum (Some n) of None \<Rightarrow> None | Some l \<Rightarrow> leafKey l)"


declare Option.bind_cong [fundef_cong]

subsection \<open>prefixMismatch\<close>

text \<open>
  The first loop of \<open>prefixMismatch\<close> compares the key with the inline prefix; a key
  index out of range reads as byte 0. \<open>Inl idx\<close> is \<open>return idx\<close> from inside the loop,
  \<open>Inr idx\<close> is the loop running to its end.
\<close>

function pm_inline :: "node \<Rightarrow> Key \<Rightarrow> int \<Rightarrow> int \<Rightarrow> (int + int) option" where
  "pm_inline m key depth idx =
     (if idx < min maxPrefixLen (prefixLen m)
      then (let keyChar = (if depth + idx < 0 \<or> depth + idx \<ge> int (length key) then 0
                           else key ! nat (depth + idx))
            in case at (prefix_n m) idx of
                 None \<Rightarrow> None
               | Some p \<Rightarrow> if keyChar \<noteq> p then Some (Inl idx)
                           else pm_inline m key depth (idx + 1))
      else Some (Inr idx))"
  by pat_completeness auto
termination
  by (relation "measure (\<lambda>(m, key, depth, idx). nat (min maxPrefixLen (prefixLen m) - idx))") auto

text \<open>The second loop compares with the key of the minimum leaf, with no range check.\<close>

function pm_overflow :: "Key \<Rightarrow> Key \<Rightarrow> int \<Rightarrow> int \<Rightarrow> int \<Rightarrow> int option" where
  "pm_overflow key minKey depth plen idx =
     (if idx < plen
      then (case at key (depth + idx) of
              None \<Rightarrow> None
            | Some a \<Rightarrow> (case at minKey (depth + idx) of
                          None \<Rightarrow> None
                        | Some b \<Rightarrow> if a \<noteq> b then Some idx
                                    else pm_overflow key minKey depth plen (idx + 1)))
      else Some idx)"
  by pat_completeness auto
termination
  by (relation "measure (\<lambda>(key, minKey, depth, plen, idx). nat (plen - idx))") auto

text \<open>
  \<open>prefixMismatch m n key depth\<close>: \<open>m\<close> is what \<open>n.node()\<close> reads, \<open>n\<close> the receiver
  (for \<open>n.minimum()\<close>).
\<close>

definition prefixMismatch :: "node \<Rightarrow> 'v artNode \<Rightarrow> Key \<Rightarrow> int \<Rightarrow> int option" where
  "prefixMismatch m n key depth =
     do {
       r \<leftarrow> pm_inline m key depth 0;
       case r of
         Inl idx \<Rightarrow> Some idx
       | Inr idx \<Rightarrow>
           if prefixLen m > maxPrefixLen
           then do { minKey \<leftarrow> minimumKey n; pm_overflow key minKey depth (prefixLen m) idx }
           else Some idx
     }"

subsection \<open>index and findChild\<close>

text \<open>\<open>bytes.IndexByte\<close>: the index of the first occurrence, or -1.\<close>

fun IndexByte :: "byte list \<Rightarrow> byte \<Rightarrow> int" where
  "IndexByte [] c = -1"
| "IndexByte (x # xs) c =
     (if x = c then 0 else (let r = IndexByte xs c in if r < 0 then -1 else r + 1))"

fun index :: "'v artNode \<Rightarrow> byte \<Rightarrow> int option" where
  "index (Leaf k v) key = Some (-1)"
| "index (Inner ty m ks cs) key =
     (case ty of
        Node4 \<Rightarrow> Some (IndexByte ks key)
      | Node16 \<Rightarrow> Some (IndexByte ks key)
      | Node48 \<Rightarrow> map_option int_of (at ks (int_of key))
      | Node256 \<Rightarrow> Some (int_of key)
      | LeafNode \<Rightarrow> Some (-1))"

text \<open>
  \<open>findChild\<close> returns a pointer: to the global \<open>nullNode\<close>, or to a slot of the
  receiver's \<open>children\<close> array.
\<close>

datatype childRef = NullNode | ChildAt int

fun findChild :: "'v artNode \<Rightarrow> byte \<Rightarrow> childRef option" where
  "findChild (Leaf k v) key = Some NullNode"
| "findChild (Inner ty m ks cs) key =
     do {
       idx \<leftarrow> (case ty of
                 Node4 \<Rightarrow> index (Inner ty m ks cs) key
               | Node16 \<Rightarrow> index (Inner ty m ks cs) key
               | Node48 \<Rightarrow> index (Inner ty m ks cs) key
               | Node256 \<Rightarrow> Some (int_of key)
               | LeafNode \<Rightarrow> Some 0);
       if idx < 0 then Some NullNode
       else (case ty of
               Node4 \<Rightarrow> if idx < int (length cs) then Some (ChildAt idx) else None
             | Node16 \<Rightarrow> if idx < int (length cs) then Some (ChildAt idx) else None
             | Node48 \<Rightarrow> if idx = 0 then Some NullNode
                         else if idx < int (length cs) then Some (ChildAt idx) else None
             | Node256 \<Rightarrow> (case at cs idx of
                             None \<Rightarrow> None
                           | Some c \<Rightarrow> if c = None then Some NullNode else Some (ChildAt idx))
             | LeafNode \<Rightarrow> Some NullNode)
     }"

text \<open>Reading and writing through the pointer \<open>findChild\<close> returned.\<close>

fun deref :: "'v artNode \<Rightarrow> childRef \<Rightarrow> 'v artNode option" where
  "deref n NullNode = None"
| "deref (Leaf k v) (ChildAt i) = None"
| "deref (Inner ty m ks cs) (ChildAt i) = (case at cs i of None \<Rightarrow> None | Some c \<Rightarrow> c)"

fun assign :: "'v artNode \<Rightarrow> childRef \<Rightarrow> 'v artNode option \<Rightarrow> 'v artNode" where
  "assign n NullNode c = n"
| "assign (Leaf k v) (ChildAt i) c = Leaf k v"
| "assign (Inner ty m ks cs) (ChildAt i) c = Inner ty m ks (cs[nat i := c])"

subsection \<open>copyMeta and grow\<close>

text \<open>The loop of \<open>copyMeta\<close> is the loop of \<open>memmove\<close>: \<open>to.prefix[i] = from.prefix[i]\<close>.\<close>

definition copyMeta :: "node \<Rightarrow> node \<Rightarrow> node option" where
  "copyMeta to from =
     do {
       p \<leftarrow> memmove (prefix_n to) (prefix_n from) (min (prefixLen from) maxPrefixLen);
       Some (to\<lparr>size_n := size_n from, prefixLen := prefixLen from, prefix_n := p\<rparr>)
     }"

function grow4_loop ::
  "byte list \<Rightarrow> 'a list \<Rightarrow> byte list \<Rightarrow> 'a list \<Rightarrow> int \<Rightarrow> int \<Rightarrow> (byte list \<times> 'a list) option" where
  "grow4_loop ks cs nks ncs sz i =
     (if i < sz
      then do {
             k \<leftarrow> at ks i;
             nks' \<leftarrow> store nks i k;
             c \<leftarrow> at cs i;
             ncs' \<leftarrow> store ncs i c;
             grow4_loop ks cs nks' ncs' sz (i + 1)
           }
      else Some (nks, ncs))"
  by pat_completeness auto
termination
  by (relation "measure (\<lambda>(ks, cs, nks, ncs, sz, i). nat (sz - i))") auto

function grow16_loop ::
  "byte list \<Rightarrow> 'a list \<Rightarrow> byte list \<Rightarrow> 'a list \<Rightarrow> int \<Rightarrow> int \<Rightarrow> (byte list \<times> 'a list) option" where
  "grow16_loop ks cs nks ncs sz i =
     (if i < sz
      then do {
             k \<leftarrow> at ks i;
             nks' \<leftarrow> store nks (int_of k) (byte_of (i + 1));
             c \<leftarrow> at cs i;
             ncs' \<leftarrow> store ncs (i + 1) c;
             grow16_loop ks cs nks' ncs' sz (i + 1)
           }
      else Some (nks, ncs))"
  by pat_completeness auto
termination
  by (relation "measure (\<lambda>(ks, cs, nks, ncs, sz, i). nat (sz - i))") auto

function grow48_loop ::
  "byte list \<Rightarrow> 'a option list \<Rightarrow> 'a option list \<Rightarrow> int \<Rightarrow> 'a option list option" where
  "grow48_loop ks cs ncs i =
     (if i < int (length ks)
      then do {
             k \<leftarrow> at ks i;
             if k = 0 then grow48_loop ks cs ncs (i + 1)
             else do {
               c \<leftarrow> at cs (int_of k);
               if c \<noteq> None
               then do { ncs' \<leftarrow> store ncs (int_of (byte_of i)) c; grow48_loop ks cs ncs' (i + 1) }
               else grow48_loop ks cs ncs (i + 1)
             }
           }
      else Some ncs)"
  by pat_completeness auto
termination
  by (relation "measure (\<lambda>(ks, cs, ncs, i). nat (int (length ks) - i))") auto

fun grow :: "'v artNode \<Rightarrow> 'v artNode option" where
  "grow (Leaf k v) = Some (Leaf k v)"
| "grow (Inner ty m ks cs) =
     (case ty of
        Node4 \<Rightarrow>
          do {
            nm \<leftarrow> copyMeta zeroNode m;
            (nks, ncs) \<leftarrow> grow4_loop ks cs (replicate 16 0) (replicate 16 None) (size_n m) 0;
            Some (Inner Node16 nm nks ncs)
          }
      | Node16 \<Rightarrow>
          do {
            nm \<leftarrow> copyMeta zeroNode m;
            (nks, ncs) \<leftarrow> grow16_loop ks cs (replicate 256 0) (replicate 49 None) (size_n m) 0;
            Some (Inner Node48 nm nks ncs)
          }
      | Node48 \<Rightarrow>
          do {
            nm \<leftarrow> copyMeta zeroNode m;
            ncs \<leftarrow> grow48_loop ks cs (replicate 256 None) 0;
            Some (Inner Node256 nm [] ncs)
          }
      | Node256 \<Rightarrow> Some (Inner ty m ks cs)
      | LeafNode \<Rightarrow> Some (Inner ty m ks cs))"

subsection \<open>addChild\<close>

function node4_pos :: "byte \<Rightarrow> byte list \<Rightarrow> int \<Rightarrow> int \<Rightarrow> int option" where
  "node4_pos key ks sz idx =
     (if idx < sz
      then do { k \<leftarrow> at ks idx;
                if key < k then Some idx else node4_pos key ks sz (idx + 1) }
      else Some idx)"
  by pat_completeness auto
termination
  by (relation "measure (\<lambda>(key, ks, sz, idx). nat (sz - idx))") auto

text \<open>
  \<open>sort.Search(n, f)\<close> of the Go standard library: binary search for the smallest
  index in \<open>[0, n)\<close> where \<open>f\<close> holds, \<open>n\<close> when there is none.
\<close>

function sort_Search_loop :: "(int \<Rightarrow> bool option) \<Rightarrow> int \<Rightarrow> int \<Rightarrow> int option" where
  "sort_Search_loop f i j =
     (if i < j
      then (let h = (i + j) div 2
            in case f h of
                 None \<Rightarrow> None
               | Some b \<Rightarrow> if \<not> b then sort_Search_loop f (h + 1) j
                           else sort_Search_loop f i h)
      else Some i)"
  by pat_completeness auto
termination
  by (relation "measure (\<lambda>(f, i, j). nat (j - i))") auto

definition sort_Search :: "int \<Rightarrow> (int \<Rightarrow> bool option) \<Rightarrow> int option" where
  "sort_Search n f = sort_Search_loop f 0 n"

function shift_right ::
  "byte list \<Rightarrow> 'a list \<Rightarrow> int \<Rightarrow> int \<Rightarrow> (byte list \<times> 'a list) option" where
  "shift_right ks cs i idx =
     (if i > idx
      then do {
             k \<leftarrow> at ks (i - 1);
             ks' \<leftarrow> store ks i k;
             c \<leftarrow> at cs (i - 1);
             cs' \<leftarrow> store cs i c;
             shift_right ks' cs' (i - 1) idx
           }
      else Some (ks, cs))"
  by pat_completeness auto
termination
  by (relation "measure (\<lambda>(ks, cs, i, idx). nat (i - idx))") auto

function first_free :: "'a option list \<Rightarrow> int \<Rightarrow> int option" where
  "first_free cs idx =
     (case at cs idx of
        None \<Rightarrow> None
      | Some c \<Rightarrow> if c \<noteq> None then first_free cs (idx + 1) else Some idx)"
  by pat_completeness auto
termination
  by (relation "measure (\<lambda>(cs, i). nat (int (length cs) - i))")
     (auto simp: at_def split: if_splits)

fun rank :: "'v artNode \<Rightarrow> nat" where
  "rank (Inner Node4 m ks cs) = 3"
| "rank (Inner Node16 m ks cs) = 2"
| "rank (Inner Node48 m ks cs) = 1"
| "rank n = 0"

lemma grow_rank:
  "grow (Inner ty m ks cs) = Some n' \<Longrightarrow> ty \<in> {Node4, Node16, Node48} \<Longrightarrow>
   rank n' < rank (Inner ty m ks cs)"
  by (cases ty) (auto simp: Option.bind_eq_Some_conv)

function addChild :: "'v artNode \<Rightarrow> byte \<Rightarrow> 'v artNode \<Rightarrow> 'v artNode option" where
  "addChild (Leaf k v) key child = Some (Leaf k v)"
| "addChild (Inner ty m ks cs) key child =
     (case ty of
        Node4 \<Rightarrow>
          if isFull ty m
          then do { n' \<leftarrow> grow (Inner ty m ks cs); addChild n' key child }
          else do {
            idx \<leftarrow> (if size_n m = 0 then Some 0 else node4_pos key ks (size_n m) 0);
            (ks1, cs1) \<leftarrow> shift_right ks cs (size_n m) idx;
            ks2 \<leftarrow> store ks1 idx key;
            cs2 \<leftarrow> store cs1 idx (Some child);
            Some (Inner ty (m\<lparr>size_n := size_n m + 1\<rparr>) ks2 cs2)
          }
      | Node16 \<Rightarrow>
          if isFull ty m
          then do { n' \<leftarrow> grow (Inner ty m ks cs); addChild n' key child }
          else do {
            idx \<leftarrow> (if size_n m = 0 then Some 0
                    else sort_Search (size_n m)
                           (\<lambda>i. map_option (\<lambda>k. key \<le> k) (at ks (int_of (byte_of i)))));
            (ks1, cs1) \<leftarrow> shift_right ks cs (size_n m) idx;
            ks2 \<leftarrow> store ks1 idx key;
            cs2 \<leftarrow> store cs1 idx (Some child);
            Some (Inner ty (m\<lparr>size_n := size_n m + 1\<rparr>) ks2 cs2)
          }
      | Node48 \<Rightarrow>
          if isFull ty m
          then do { n' \<leftarrow> grow (Inner ty m ks cs); addChild n' key child }
          else do {
            idx \<leftarrow> first_free cs 1;
            cs1 \<leftarrow> store cs idx (Some child);
            ks1 \<leftarrow> store ks (int_of key) (byte_of idx);
            Some (Inner ty (m\<lparr>size_n := size_n m + 1\<rparr>) ks1 cs1)
          }
      | Node256 \<Rightarrow>
          if isFull ty m then Some (Inner ty m ks cs)
          else do {
            cs1 \<leftarrow> store cs (int_of key) (Some child);
            Some (Inner ty (m\<lparr>size_n := size_n m + 1\<rparr>) ks cs1)
          }
      | LeafNode \<Rightarrow> Some (Inner ty m ks cs))"
  by pat_completeness auto
termination
  by (relation "measure (\<lambda>(n, key, child). rank n)")
     (auto simp del: grow.simps dest!: grow_rank)


subsection \<open>shrink and RemoveChild\<close>

function shrink16_loop ::
  "byte list \<Rightarrow> 'a list \<Rightarrow> byte list \<Rightarrow> 'a list \<Rightarrow> int \<Rightarrow> int \<Rightarrow> int \<Rightarrow>
   (byte list \<times> 'a list \<times> int) option" where
  "shrink16_loop ks cs nks ncs nsz sz i =
     (if i < sz
      then do {
             k \<leftarrow> at ks i;
             nks' \<leftarrow> store nks nsz k;
             c \<leftarrow> at cs i;
             ncs' \<leftarrow> store ncs nsz c;
             shrink16_loop ks cs nks' ncs' (nsz + 1) sz (i + 1)
           }
      else Some (nks, ncs, nsz))"
  by pat_completeness auto
termination
  by (relation "measure (\<lambda>(ks, cs, nks, ncs, nsz, sz, i). nat (sz - i))") auto

function shrink48_loop ::
  "byte list \<Rightarrow> 'a list \<Rightarrow> byte list \<Rightarrow> 'a list \<Rightarrow> int \<Rightarrow> int \<Rightarrow>
   (byte list \<times> 'a list \<times> int) option" where
  "shrink48_loop ks cs nks ncs nsz i =
     (if i < int (length ks)
      then do {
             idx \<leftarrow> at ks (int_of (byte_of i));
             if idx \<le> 0 then shrink48_loop ks cs nks ncs nsz (i + 1)
             else do {
               nks' \<leftarrow> store nks nsz (byte_of i);
               c \<leftarrow> at cs (int_of idx);
               ncs' \<leftarrow> store ncs nsz c;
               shrink48_loop ks cs nks' ncs' (nsz + 1) (i + 1)
             }
           }
      else Some (nks, ncs, nsz))"
  by pat_completeness auto
termination
  by (relation "measure (\<lambda>(ks, cs, nks, ncs, nsz, i). nat (int (length ks) - i))") auto

function shrink256_loop ::
  "'a option list \<Rightarrow> byte list \<Rightarrow> 'a option list \<Rightarrow> int \<Rightarrow> int \<Rightarrow>
   (byte list \<times> 'a option list \<times> int) option" where
  "shrink256_loop cs nks ncs nsz i =
     (if i < int (length cs)
      then do {
             c \<leftarrow> at cs (int_of (byte_of i));
             if c = None then shrink256_loop cs nks ncs nsz (i + 1)
             else do {
               ncs' \<leftarrow> store ncs (nsz + 1) c;
               nks' \<leftarrow> store nks (int_of (byte_of i)) (byte_of (nsz + 1));
               shrink256_loop cs nks' ncs' (nsz + 1) (i + 1)
             }
           }
      else Some (nks, ncs, nsz))"
  by pat_completeness auto
termination
  by (relation "measure (\<lambda>(cs, nks, ncs, nsz, i). nat (int (length cs) - i))") auto

text \<open>
  The Node4 case of \<open>shrink\<close> for an inner child: the prefix of the node4, the byte of
  the edge and the prefix of the child are put together in the node4's buffer and
  copied to the child. \<open>pm\<close>, \<open>k0\<close> are the node4's metadata and \<open>keys[0]\<close>, \<open>cm\<close> the
  child's metadata; the result is the child's new metadata.
\<close>

definition shrink_merge :: "node \<Rightarrow> byte list \<Rightarrow> node \<Rightarrow> node option" where
  "shrink_merge pm ks cm =
     do {
       let cur = prefixLen pm;
       (buf1, cur1) \<leftarrow>
         (if cur < maxPrefixLen
          then do { k0 \<leftarrow> at ks 0; b \<leftarrow> store (prefix_n pm) cur k0; Some (b, cur + 1) }
          else Some (prefix_n pm, cur));
       (buf2, cur2) \<leftarrow>
         (if cur1 < maxPrefixLen
          then do {
                 let childPrefixLen = min (prefixLen cm) (maxPrefixLen - cur1);
                 dst \<leftarrow> slice_from buf1 cur1;
                 Some (take (nat cur1) buf1 @ memcpy dst (prefix_n cm) childPrefixLen,
                       cur1 + childPrefixLen)
               }
          else Some (buf1, cur1));
       Some (cm\<lparr>prefix_n := memcpy (prefix_n cm) buf2 (min cur2 maxPrefixLen),
                prefixLen := prefixLen cm + (prefixLen pm + 1)\<rparr>)
     }"

fun shrink :: "'v artNode \<Rightarrow> 'v artNode option" where
  "shrink (Leaf k v) = Some (Leaf k v)"
| "shrink (Inner ty m ks cs) =
     (case ty of
        Node4 \<Rightarrow>
          do {
            c0 \<leftarrow> at cs 0;
            case c0 of
              None \<Rightarrow> None
            | Some (Leaf k v) \<Rightarrow> Some (Leaf k v)
            | Some (Inner cty cm cks ccs) \<Rightarrow>
                do { cm' \<leftarrow> shrink_merge m ks cm; Some (Inner cty cm' cks ccs) }
          }
      | Node16 \<Rightarrow>
          do {
            nm \<leftarrow> copyMeta zeroNode m;
            (nks, ncs, nsz) \<leftarrow>
              shrink16_loop ks cs (replicate 4 0) (replicate 4 None) 0 (size_n m) 0;
            Some (Inner Node4 (nm\<lparr>size_n := nsz\<rparr>) nks ncs)
          }
      | Node48 \<Rightarrow>
          do {
            nm \<leftarrow> copyMeta zeroNode m;
            (nks, ncs, nsz) \<leftarrow>
              shrink48_loop ks cs (replicate 16 0) (replicate 16 None) 0 0;
            Some (Inner Node16 (nm\<lparr>size_n := nsz\<rparr>) nks ncs)
          }
      | Node256 \<Rightarrow>
          do {
            nm \<leftarrow> copyMeta zeroNode m;
            (nks, ncs, nsz) \<leftarrow>
              shrink256_loop cs (replicate 256 0) (replicate 49 None) 0 0;
            Some (Inner Node48 (nm\<lparr>size_n := nsz\<rparr>) nks ncs)
          }
      | LeafNode \<Rightarrow> Some (Inner ty m ks cs))"

function shift_left ::
  "byte list \<Rightarrow> 'a list \<Rightarrow> int \<Rightarrow> int \<Rightarrow> (byte list \<times> 'a list) option" where
  "shift_left ks cs sz i =
     (if i < sz - 1
      then do {
             k \<leftarrow> at ks (i + 1);
             ks' \<leftarrow> store ks i k;
             c \<leftarrow> at cs (i + 1);
             cs' \<leftarrow> store cs i c;
             shift_left ks' cs' sz (i + 1)
           }
      else Some (ks, cs))"
  by pat_completeness auto
termination
  by (relation "measure (\<lambda>(ks, cs, sz, i). nat (sz - i))") auto

text \<open>
  The body of the \<open>Node4\<close> and \<open>Node16\<close> cases of \<open>RemoveChild\<close> (the same statements
  on the two array sizes).
\<close>

definition remove_sorted ::
  "node \<Rightarrow> byte list \<Rightarrow> 'a option list \<Rightarrow> int \<Rightarrow> (node \<times> byte list \<times> 'a option list) option" where
  "remove_sorted m ks cs idx =
     (if idx < 0 then Some (m, ks, cs)
      else do {
        ks1 \<leftarrow> store ks idx 0;
        cs1 \<leftarrow> store cs idx None;
        (ks2, cs2) \<leftarrow> shift_left ks1 cs1 (size_n m) idx;
        ks3 \<leftarrow> store ks2 (size_n m - 1) 0;
        cs3 \<leftarrow> store cs2 (size_n m - 1) None;
        Some (m\<lparr>size_n := size_n m - 1\<rparr>, ks3, cs3)
      })"

text \<open>\<open>RemoveChild\<close> is only called on inner nodes.\<close>

fun RemoveChild :: "'v artNode \<Rightarrow> byte \<Rightarrow> 'v artNode option" where
  "RemoveChild (Leaf k v) key = Some (Leaf k v)"
| "RemoveChild (Inner ty m ks cs) key =
     do {
       (m', ks', cs') \<leftarrow>
         (case ty of
            Node4 \<Rightarrow> do { idx \<leftarrow> index (Inner ty m ks cs) key; remove_sorted m ks cs idx }
          | Node16 \<Rightarrow> do { idx \<leftarrow> index (Inner ty m ks cs) key; remove_sorted m ks cs idx }
          | Node48 \<Rightarrow>
              do {
                idx \<leftarrow> index (Inner ty m ks cs) key;
                if idx \<le> 0 then Some (m, ks, cs)
                else do {
                  cs1 \<leftarrow> store cs idx None;
                  ks1 \<leftarrow> store ks (int_of key) 0;
                  Some (m\<lparr>size_n := size_n m - 1\<rparr>, ks1, cs1)
                }
              }
          | Node256 \<Rightarrow>
              do {
                idx \<leftarrow> index (Inner ty m ks cs) key;
                cs1 \<leftarrow> store cs idx None;
                Some (m\<lparr>size_n := size_n m - 1\<rparr>, ks, cs1)
              }
          | LeafNode \<Rightarrow> Some (m, ks, cs));
       if size_n m' < minSize ty then shrink (Inner ty m' ks' cs')
       else Some (Inner ty m' ks' cs')
     }"

subsection \<open>longestCommonPrefix\<close>

function lcp_loop :: "Key \<Rightarrow> Key \<Rightarrow> int \<Rightarrow> int \<Rightarrow> int \<Rightarrow> int option" where
  "lcp_loop k1 k2 depth limit i =
     (if i < limit
      then do {
             a \<leftarrow> at k1 (depth + i);
             b \<leftarrow> at k2 (depth + i);
             if a \<noteq> b then Some i else lcp_loop k1 k2 depth limit (i + 1)
           }
      else Some limit)"
  by pat_completeness auto
termination
  by (relation "measure (\<lambda>(k1, k2, depth, limit, i). nat (limit - i))") auto

definition longestCommonPrefix :: "'v artNode \<Rightarrow> 'v artNode \<Rightarrow> int \<Rightarrow> int option" where
  "longestCommonPrefix n other depth =
     do {
       k1 \<leftarrow> leafKey (Some n);
       k2 \<leftarrow> leafKey (Some other);
       lcp_loop k1 k2 depth (min (int (length k1)) (int (length k2)) - depth) 0
     }"

section \<open>The tree operations (tree.go)\<close>

subsection \<open>Search\<close>

lemma deref_size_less:
  "deref n r = Some c \<Longrightarrow> size c < size n"
proof (cases n)
  case (Leaf k v)
  assume "deref n r = Some c"
  with Leaf show ?thesis by (cases r) auto
next
  case (Inner ty m ks cs)
  assume d: "deref n r = Some c"
  show ?thesis
  proof (cases r)
    case NullNode
    with d show ?thesis by simp
  next
    case (ChildAt i)
    with d Inner have "at cs i = Some (Some c)"
      by (auto split: option.splits)
    from at_size_less [OF this] Inner show ?thesis by simp
  qed
qed

function searchHelper :: "'v artNode option \<Rightarrow> Key \<Rightarrow> int \<Rightarrow> 'v option option" where
  "searchHelper None key depth = Some None"
| "searchHelper (Some (Leaf k v)) key depth =
     (if isMatch (Leaf k v) key then Some v else Some None)"
| "searchHelper (Some (Inner ty m ks cs)) key depth =
     do {
       mm \<leftarrow> prefixMismatch m (Inner ty m ks cs) key depth;
       if mm \<noteq> prefixLen m then Some None
       else do {
         let depth' = depth + prefixLen m;
         let keyChar = (if depth' < 0 \<or> depth' \<ge> int (length key) then 0
                        else key ! nat depth');
         r \<leftarrow> findChild (Inner ty m ks cs) keyChar;
         searchHelper (deref (Inner ty m ks cs) r) key (depth' + 1)
       }
     }"
  by pat_completeness auto
termination
proof (relation "measure (\<lambda>(n, key, depth). size_option size n)", goal_cases)
  case 1
  show ?case by simp
next
  case (2 ty m ks cs key depth mm x xa r)
  show ?case
  proof (cases "deref (Inner ty m ks cs) r")
    case None
    then show ?thesis by simp
  next
    case (Some c)
    from deref_size_less [OF this] Some show ?thesis by simp
  qed
qed

definition Search :: "'v tree \<Rightarrow> Key \<Rightarrow> 'v option option" where
  "Search t key = searchHelper (root t) key 0"


subsection \<open>Insert\<close>

text \<open>
  The two splits of \<open>insertHelper\<close>, which do not recurse. \<open>split_leaf\<close> replaces a
  leaf whose key differs from the new key by a node4 over both leaves;
  \<open>split_prefix\<close> replaces an inner node whose prefix differs from the key at offset
  \<open>mismatch\<close> by a node4 over the node and the new leaf.
\<close>

definition split_leaf :: "Key \<Rightarrow> 'v option \<Rightarrow> Key \<Rightarrow> 'v option \<Rightarrow> int \<Rightarrow> 'v artNode option" where
  "split_leaf k v key val depth =
     do {
       let newLeaf = newLeafNode key val;
       limit \<leftarrow> longestCommonPrefix (Leaf k v) newLeaf depth;
       let m4 = zeroNode\<lparr>prefixLen := limit\<rparr>;
       src \<leftarrow> slice_from key depth;
       let m4 = m4\<lparr>prefix_n := memcpy (prefix_n m4) src (min (prefixLen m4) maxPrefixLen)\<rparr>;
       let n4 = Inner Node4 m4 (replicate 4 0) (replicate 4 None);
       n4 \<leftarrow> (if depth + prefixLen m4 < 0 \<or> depth + prefixLen m4 \<ge> int (length k)
               then addChild n4 0 (Leaf k v)
               else do { b \<leftarrow> at k (depth + prefixLen m4); addChild n4 b (Leaf k v) });
       (if depth + prefixLen m4 < 0 \<or> depth + prefixLen m4 \<ge> int (length key)
        then addChild n4 0 newLeaf
        else do { b \<leftarrow> at key (depth + prefixLen m4); addChild n4 b newLeaf })
     }"

definition split_prefix ::
  "NodeType \<Rightarrow> node \<Rightarrow> byte list \<Rightarrow> 'v artNode option list \<Rightarrow> Key \<Rightarrow> 'v option \<Rightarrow> int \<Rightarrow> int \<Rightarrow>
   'v artNode option" where
  "split_prefix ty m ks cs key val depth mismatch =
     do {
       let m4 = zeroNode\<lparr>prefixLen := mismatch\<rparr>;
       let m4 = m4\<lparr>prefix_n := memcpy (prefix_n m4) (prefix_n m) mismatch\<rparr>;
       let n4 = Inner Node4 m4 (replicate 4 0) (replicate 4 None);
       n4 \<leftarrow>
         (if prefixLen m < maxPrefixLen
          then do {
                 b \<leftarrow> at (prefix_n m) mismatch;
                 let pl = prefixLen m - (mismatch + 1);
                 p \<leftarrow> memmove_within (prefix_n m) (mismatch + 1) (min pl maxPrefixLen);
                 addChild n4 b (Inner ty (m\<lparr>prefixLen := pl, prefix_n := p\<rparr>) ks cs)
               }
          else do {
                 let pl = prefixLen m - (mismatch + 1);
                 minKey \<leftarrow> minimumKey (Inner ty m ks cs);
                 b \<leftarrow> at minKey (depth + mismatch);
                 src \<leftarrow> slice_from minKey (depth + mismatch + 1);
                 p \<leftarrow> memmove (prefix_n m) src (min pl maxPrefixLen);
                 addChild n4 b (Inner ty (m\<lparr>prefixLen := pl, prefix_n := p\<rparr>) ks cs)
               });
       b \<leftarrow> at key (depth + mismatch);
       addChild n4 b (newLeafNode key val)
     }"

text \<open>
  \<open>insertHelper cur key val depth sz\<close>: \<open>cur\<close> is the content of the slot
  \<open>*currentRef\<close>, \<open>sz\<close> is \<open>t.size\<close>; the result is the new content of the slot and
  the new \<open>t.size\<close>.
\<close>

function insertHelper ::
  "'v artNode option \<Rightarrow> Key \<Rightarrow> 'v option \<Rightarrow> int \<Rightarrow> int \<Rightarrow> ('v artNode option \<times> int) option" where
  "insertHelper None key val depth sz = Some (Some (newLeafNode key val), sz + 1)"
| "insertHelper (Some (Leaf k v)) key val depth sz =
     (if isMatch (Leaf k v) key then Some (Some (Leaf k val), sz)
      else do { n4 \<leftarrow> split_leaf k v key val depth; Some (Some n4, sz + 1) })"
| "insertHelper (Some (Inner ty m ks cs)) key val depth sz =
     do {
       r \<leftarrow> (if prefixLen m \<noteq> 0
              then do {
                     mismatch \<leftarrow> prefixMismatch m (Inner ty m ks cs) key depth;
                     Some (if mismatch \<noteq> prefixLen m then Inl mismatch
                           else Inr (depth + prefixLen m))
                   }
              else Some (Inr depth));
       case r of
         Inl mismatch \<Rightarrow>
           do { n4 \<leftarrow> split_prefix ty m ks cs key val depth mismatch; Some (Some n4, sz + 1) }
       | Inr depth' \<Rightarrow>
           do {
             b \<leftarrow> at key depth';
             next \<leftarrow> findChild (Inner ty m ks cs) b;
             case deref (Inner ty m ks cs) next of
               Some c \<Rightarrow>
                 do {
                   (c', sz') \<leftarrow> insertHelper (Some c) key val (depth' + 1) sz;
                   Some (Some (assign (Inner ty m ks cs) next c'), sz')
                 }
             | None \<Rightarrow>
                 do {
                   n' \<leftarrow> addChild (Inner ty m ks cs) b (newLeafNode key val);
                   Some (Some n', sz + 1)
                 }
           }
     }"
  by pat_completeness auto
termination
  by (relation "measure (\<lambda>(n, key, val, depth, sz). size_option size n)")
     (auto dest: deref_size_less)

definition Insert :: "'v tree \<Rightarrow> Key \<Rightarrow> 'v option \<Rightarrow> 'v tree option" where
  "Insert t key val =
     do {
       (r, sz) \<leftarrow> insertHelper (root t) key val 0 (size_t t);
       Some \<lparr>root = r, size_t = sz\<rparr>
     }"

subsection \<open>Delete\<close>

text \<open>
  \<open>deleteHelper\<close> does not return when the current node is a leaf with another key:
  it goes on to \<open>current.node().prefixLen\<close>, which reads the leaf's payload (a slice
  header and an interface) as if it were a \<open>node\<close>. What that read yields depends on
  the memory layout; it is the parameter \<open>hdr\<close>.
\<close>

fun nodeView :: "(Key \<Rightarrow> 'v option \<Rightarrow> node) \<Rightarrow> 'v artNode \<Rightarrow> node" where
  "nodeView hdr (Leaf k v) = hdr k v"
| "nodeView hdr (Inner ty m ks cs) = m"

function deleteHelper ::
  "(Key \<Rightarrow> 'v option \<Rightarrow> node) \<Rightarrow> 'v artNode option \<Rightarrow> Key \<Rightarrow> int \<Rightarrow> int \<Rightarrow>
   (bool \<times> 'v artNode option \<times> int) option" where
  "deleteHelper hdr None key depth sz = Some (False, None, sz)"
| "deleteHelper hdr (Some cur) key depth sz =
     (if length key = 0 then Some (False, Some cur, sz)
      else if isLeaf cur \<and> isMatch cur key then Some (True, None, sz - 1)
      else do {
        let m = nodeView hdr cur;
        r \<leftarrow> (if prefixLen m \<noteq> 0
               then do {
                      mismatch \<leftarrow> prefixMismatch m cur key depth;
                      Some (if mismatch \<noteq> prefixLen m then None else Some (depth + prefixLen m))
                    }
               else Some (Some depth));
        case r of
          None \<Rightarrow> Some (False, Some cur, sz)
        | Some depth' \<Rightarrow>
            do {
              let keyChar = (if depth' < 0 \<or> depth' \<ge> int (length key) then 0
                             else key ! nat depth');
              next \<leftarrow> findChild cur keyChar;
              case deref cur next of
                Some c \<Rightarrow>
                  if isLeaf c \<and> isMatch c key
                  then do { n' \<leftarrow> RemoveChild cur keyChar; Some (True, Some n', sz - 1) }
                  else do {
                    (b, c', sz') \<leftarrow> deleteHelper hdr (Some c) key (depth' + 1) sz;
                    Some (b, Some (assign cur next c'), sz')
                  }
              | None \<Rightarrow>
                  do {
                    (b, c', sz') \<leftarrow> deleteHelper hdr None key (depth' + 1) sz;
                    Some (b, Some (assign cur next c'), sz')
                  }
            }
      })"
  by pat_completeness auto
termination
  by (relation "measure (\<lambda>(hdr, n, key, depth, sz). case n of None \<Rightarrow> 0 | Some c \<Rightarrow> Suc (size c))")
     (auto dest: deref_size_less)

definition Delete ::
  "(Key \<Rightarrow> 'v option \<Rightarrow> node) \<Rightarrow> 'v tree \<Rightarrow> Key \<Rightarrow> (bool \<times> 'v tree) option" where
  "Delete hdr t key =
     do {
       (b, r, sz) \<leftarrow> deleteHelper hdr (root t) key 0 (size_t t);
       Some (b, \<lparr>root = r, size_t = sz\<rparr>)
     }"

subsection \<open>Each and Size\<close>

text \<open>
  \<open>Each\<close> calls the callback on every node in pre-order; the model returns the list
  of the nodes in the order of the calls.
\<close>

lemma size_list_mem_le: "x \<in> set xs \<Longrightarrow> f x \<le> size_list f xs"
  by (induction xs) auto

fun concat_opt :: "'a list option list \<Rightarrow> 'a list option" where
  "concat_opt [] = Some []"
| "concat_opt (x # xs) = do { a \<leftarrow> x; b \<leftarrow> concat_opt xs; Some (a @ b) }"

function eachHelper :: "'v artNode option \<Rightarrow> 'v artNode list option" where
  "eachHelper None = Some []"
| "eachHelper (Some (Leaf k v)) = Some [Leaf k v]"
| "eachHelper (Some (Inner ty m ks cs)) =
     do {
       rest \<leftarrow>
         (case ty of
            Node4 \<Rightarrow> concat_opt (map eachHelper cs)
          | Node16 \<Rightarrow> concat_opt (map eachHelper cs)
          | Node48 \<Rightarrow>
              concat_opt
                (map (\<lambda>i. if i > 0
                          then (case at cs (int_of i) of
                                  None \<Rightarrow> None
                                | Some next \<Rightarrow> eachHelper next)
                          else Some []) ks)
          | Node256 \<Rightarrow> concat_opt (map eachHelper cs)
          | LeafNode \<Rightarrow> Some []);
       Some (Inner ty m ks cs # rest)
     }"
  by pat_completeness auto
termination
proof (relation "measure (size_option size)", goal_cases)
  case 1
  show ?case by simp
next
  case (2 ty m ks cs x)
  then have "size_option size x \<le> size_list (size_option size) cs"
    by (auto intro: size_list_mem_le)
  then show ?case by simp
next
  case (3 ty m ks cs x)
  then have "size_option size x \<le> size_list (size_option size) cs"
    by (auto intro: size_list_mem_le)
  then show ?case by simp
next
  case (4 ty m ks cs i nxt)
  then have "at cs (int_of i) = Some nxt" by simp
  from at_size_less [OF this] show ?case by simp
next
  case (5 ty m ks cs x)
  then have "size_option size x \<le> size_list (size_option size) cs"
    by (auto intro: size_list_mem_le)
  then show ?case by simp
qed

definition eachChildren :: "'v artNode option list \<Rightarrow> 'v artNode list option" where
  "eachChildren children = concat_opt (map eachHelper children)"

definition Each :: "'v tree \<Rightarrow> 'v artNode list option" where
  "Each t = eachHelper (root t)"

definition Size :: "'v tree \<Rightarrow> int" where
  "Size t = size_t t"

text \<open>The method \<open>Key()\<close> of a visited node, and the keys of the leaves \<open>Each\<close> visits.\<close>

fun leafKeys :: "'v artNode list \<Rightarrow> Key list" where
  "leafKeys [] = []"
| "leafKeys (Leaf k v # ns) = k # leafKeys ns"
| "leafKeys (Inner ty m ks cs # ns) = leafKeys ns"


section \<open>Notions used by the properties\<close>

text \<open>A sequence of \<open>Insert\<close> calls; it stops at the first panic.\<close>

fun Inserts :: "'v tree \<Rightarrow> (Key \<times> 'v option) list \<Rightarrow> 'v tree option" where
  "Inserts t [] = Some t"
| "Inserts t ((k, v) # kvs) = (case Insert t k v of None \<Rightarrow> None | Some t' \<Rightarrow> Inserts t' kvs)"

text \<open>The child under a byte: \<open>*(n.findChild(b))\<close>.\<close>

definition childAt :: "'v artNode \<Rightarrow> byte \<Rightarrow> 'v artNode option option" where
  "childAt n b = do { r \<leftarrow> findChild n b; Some (deref n r) }"

text \<open>
  The directory of an inner node as a function from bytes to children, and the bytes
  in ascending order.
\<close>

definition lookup :: "'v artNode \<Rightarrow> byte \<Rightarrow> 'v artNode option" where
  "lookup n b = (case childAt n b of None \<Rightarrow> None | Some c \<Rightarrow> c)"

definition all_bytes :: "byte list" where
  "all_bytes = map of_nat [0..<256]"

text \<open>
  The inline prefix a node stores: the first \<open>min(prefixLen, maxPrefixLen)\<close> bytes of
  the buffer.
\<close>

definition storedPrefix :: "node \<Rightarrow> byte list" where
  "storedPrefix m = take (nat (min (prefixLen m) maxPrefixLen)) (prefix_n m)"

text \<open>
  The representation invariant of one inner node. A node4 or node16 with \<open>size\<close>
  children: the arrays have the declared length, the first \<open>size\<close> keys are strictly
  ascending with a child each, the unused slots are zero and nil.
\<close>

definition sorted_ok :: "nat \<Rightarrow> node \<Rightarrow> byte list \<Rightarrow> 'a option list \<Rightarrow> bool" where
  "sorted_ok cap m ks cs =
     (length ks = cap \<and> length cs = cap \<and> 0 \<le> size_n m \<and> size_n m \<le> int cap \<and>
      sorted_wrt (<) (take (nat (size_n m)) ks) \<and>
      list_all (\<lambda>c. c \<noteq> None) (take (nat (size_n m)) cs) \<and>
      list_all (\<lambda>k. k = 0) (drop (nat (size_n m)) ks) \<and>
      list_all (\<lambda>c. c = None) (drop (nat (size_n m)) cs))"

text \<open>
  A node48: \<open>keys\<close> maps every byte to 0 or to a slot in \<open>1..48\<close>, no two bytes to the
  same slot; the slots in use are exactly the slots that hold a child; \<open>size\<close> counts
  them. A node256: \<open>size\<close> counts the children.
\<close>

definition node48_ok :: "node \<Rightarrow> byte list \<Rightarrow> 'a option list \<Rightarrow> bool" where
  "node48_ok m ks cs =
     (length ks = 256 \<and> length cs = 49 \<and>
      list_all (\<lambda>k. k \<le> 48) ks \<and>
      distinct (filter (\<lambda>k. k \<noteq> 0) ks) \<and>
      list_all (\<lambda>j. (cs ! j \<noteq> None) = (j \<noteq> 0 \<and> of_nat j \<in> set ks)) [0..<49] \<and>
      size_n m = int (length (filter (\<lambda>k. k \<noteq> 0) ks)))"

definition node256_ok :: "node \<Rightarrow> byte list \<Rightarrow> 'a option list \<Rightarrow> bool" where
  "node256_ok m ks cs =
     (ks = [] \<and> length cs = 256 \<and>
      size_n m = int (length (filter (\<lambda>c. c \<noteq> None) cs)))"

fun node_ok :: "NodeType \<Rightarrow> node \<Rightarrow> byte list \<Rightarrow> 'a option list \<Rightarrow> bool" where
  "node_ok Node4 m ks cs = (length (prefix_n m) = 10 \<and> sorted_ok 4 m ks cs)"
| "node_ok Node16 m ks cs = (length (prefix_n m) = 10 \<and> sorted_ok 16 m ks cs)"
| "node_ok Node48 m ks cs = (length (prefix_n m) = 10 \<and> node48_ok m ks cs)"
| "node_ok Node256 m ks cs = (length (prefix_n m) = 10 \<and> node256_ok m ks cs)"
| "node_ok LeafNode m ks cs = False"

text \<open>The variant a node grows to.\<close>

fun grown :: "NodeType \<Rightarrow> NodeType" where
  "grown Node4 = Node16"
| "grown Node16 = Node48"
| "grown Node48 = Node256"
| "grown ty = ty"

text \<open>
  The node-level invariant of the specification: the child count is within the bounds
  of the variant, and in a node4 or node16 the first \<open>size\<close> keys are strictly
  ascending, \<open>keys[i]\<close> leading to \<open>children[i]\<close>.
\<close>

fun inner_ok :: "'v artNode \<Rightarrow> bool" where
  "inner_ok (Leaf k v) = True"
| "inner_ok (Inner ty m ks cs) =
     (minSize ty \<le> size_n m \<and> size_n m \<le> maxSize ty \<and>
      (if ty = Node4 \<or> ty = Node16
       then sorted_wrt (<) (take (nat (size_n m)) ks) \<and>
            list_all (\<lambda>i. findChild (Inner ty m ks cs) (ks ! i) = Some (ChildAt (int i)) \<and>
                           cs ! i \<noteq> None) [0..<nat (size_n m)]
       else True))"

text \<open>A full node256 of 256 leaves with the empty key.\<close>

definition fullNode256 :: "nat artNode" where
  "fullNode256 =
     Inner Node256 \<lparr>size_n = 256, prefixLen = 0, prefix_n = replicate 10 0\<rparr> []
       (replicate 256 (Some (Leaf [] None)))"

text \<open>
  A full node16 whose first two keys are both 0, as the leaf split makes them for the
  keys \<open>a\<close> and \<open>a\<close> followed by a zero byte; child \<open>i\<close> is a leaf with value \<open>i\<close>.
\<close>

definition aliasNode16 :: "nat artNode" where
  "aliasNode16 =
     Inner Node16 \<lparr>size_n = 16, prefixLen = 0, prefix_n = replicate 10 0\<rparr>
       [0, 0, 1, 2, 3, 4, 5, 6, 7, 8, 9, 10, 11, 12, 13, 14]
       (map (\<lambda>i. Some (Leaf [] (Some i))) [0..<16])"

text \<open>A layout in which a leaf read as a \<open>node\<close> shows only zeros.\<close>

definition zeroHdr :: "Key \<Rightarrow> nat option \<Rightarrow> node" where
  "zeroHdr k v = zeroNode"

text \<open>
  A node4 with prefix \<open>ab\<close> and one child left under the edge byte \<open>c\<close>: an inner
  node with prefix \<open>d\<close>.
\<close>

definition exChildMeta :: node where
  "exChildMeta = \<lparr>size_n = 2, prefixLen = 1, prefix_n = [0x64, 0, 0, 0, 0, 0, 0, 0, 0, 0]\<rparr>"

definition exChild :: "nat artNode" where
  "exChild = Inner Node4 exChildMeta [1, 2, 0, 0]
               [Some (Leaf [0x61, 0x62, 0x63, 0x64, 1] (Some 1)),
                Some (Leaf [0x61, 0x62, 0x63, 0x64, 2] (Some 2)), None, None]"

definition exParentMeta :: node where
  "exParentMeta = \<lparr>size_n = 1, prefixLen = 2, prefix_n = [0x61, 0x62, 0, 0, 0, 0, 0, 0, 0, 0]\<rparr>"

text \<open>
  The empty key, then the sixteen one-byte keys \<open>0\<close> to \<open>15\<close>.
\<close>

definition emptyKeySeq :: "(Key \<times> nat option) list" where
  "emptyKeySeq = ([], Some 100) # map (\<lambda>i. ([of_nat i], Some i)) [0..<16]"

text \<open>
  A node4 with prefix \<open>abc\<close> and one child left under the edge byte \<open>x\<close>: an inner
  node whose \<open>prefixLen\<close> is negative.
\<close>

definition negChildMeta :: node where
  "negChildMeta = \<lparr>size_n = 2, prefixLen = - 3, prefix_n = replicate 10 0\<rparr>"

definition negChild :: "nat artNode" where
  "negChild = Inner Node4 negChildMeta [1, 2, 0, 0]
                [Some (Leaf [1] (Some 1)), Some (Leaf [2] (Some 2)), None, None]"

definition abcMeta :: node where
  "abcMeta = \<lparr>size_n = 1, prefixLen = 3, prefix_n = [0x61, 0x62, 0x63, 0, 0, 0, 0, 0, 0, 0]\<rparr>"

text \<open>
  The arrays of a node as the Go types declare them: the sizes of \<open>prefix\<close>, \<open>keys\<close>
  and \<open>children\<close>, and for a node48 the entries of \<open>keys\<close> within the \<open>children\<close>
  array.
\<close>

fun arrays_ok :: "NodeType \<Rightarrow> node \<Rightarrow> byte list \<Rightarrow> 'a option list \<Rightarrow> bool" where
  "arrays_ok Node4 m ks cs = (length (prefix_n m) = 10 \<and> length ks = 4 \<and> length cs = 4)"
| "arrays_ok Node16 m ks cs = (length (prefix_n m) = 10 \<and> length ks = 16 \<and> length cs = 16)"
| "arrays_ok Node48 m ks cs =
     (length (prefix_n m) = 10 \<and> length ks = 256 \<and> length cs = 49 \<and> list_all (\<lambda>k. k \<le> 48) ks)"
| "arrays_ok Node256 m ks cs = (length (prefix_n m) = 10 \<and> length cs = 256)"
| "arrays_ok LeafNode m ks cs = False"

text \<open>A full node4 with the keys 1 to 4, and the metadata of a full node256.\<close>

definition full4Meta :: node where
  "full4Meta = \<lparr>size_n = 4, prefixLen = 0, prefix_n = replicate 10 0\<rparr>"

definition full4Children :: "nat artNode option list" where
  "full4Children = [Some (Leaf [1] (Some 1)), Some (Leaf [2] (Some 2)),
                    Some (Leaf [3] (Some 3)), Some (Leaf [4] (Some 4))]"

definition full256Meta :: node where
  "full256Meta = \<lparr>size_n = 256, prefixLen = 0, prefix_n = replicate 10 0\<rparr>"

text \<open>
  What \<open>grow\<close> relies on: the arrays as declared, the child count within the arrays of a
  node4 or node16 with the unused slots zero and nil, and the keys in use of a node16
  all different.
\<close>

fun grow_pre :: "NodeType \<Rightarrow> node \<Rightarrow> byte list \<Rightarrow> 'a option list \<Rightarrow> bool" where
  "grow_pre Node4 m ks cs =
     (arrays_ok Node4 m ks cs \<and> 0 \<le> size_n m \<and> size_n m \<le> 4 \<and>
      list_all (\<lambda>k. k = 0) (drop (nat (size_n m)) ks) \<and>
      list_all (\<lambda>c. c = None) (drop (nat (size_n m)) cs))"
| "grow_pre Node16 m ks cs =
     (arrays_ok Node16 m ks cs \<and> 0 \<le> size_n m \<and> size_n m \<le> 16 \<and>
      distinct (take (nat (size_n m)) ks) \<and>
      list_all (\<lambda>k. k = 0) (drop (nat (size_n m)) ks) \<and>
      list_all (\<lambda>c. c = None) (drop (nat (size_n m)) cs))"
| "grow_pre ty m ks cs = arrays_ok ty m ks cs"

text \<open>A node16 with the five keys 1 to 5 and the prefix \<open>ab\<close>.\<close>

definition five16Meta :: node where
  "five16Meta = \<lparr>size_n = 5, prefixLen = 2, prefix_n = [0x61, 0x62, 0, 0, 0, 0, 0, 0, 0, 0]\<rparr>"

definition five16Keys :: "byte list" where
  "five16Keys = [1, 2, 3, 4, 5] @ replicate 11 0"

definition five16Children :: "nat artNode option list" where
  "five16Children =
     map (\<lambda>i. Some (Leaf [0x61, 0x62, of_nat i] (Some i))) [1..<6] @ replicate 11 None"

section \<open>Properties\<close>

declare memcpy_loop.simps [simp del] memmove_loop.simps [simp del]
  memmove_within_loop.simps [simp del] first_nonzero.simps [simp del]
  first_present.simps [simp del] pm_inline.simps [simp del] pm_overflow.simps [simp del]
  grow4_loop.simps [simp del] grow16_loop.simps [simp del] grow48_loop.simps [simp del]
  node4_pos.simps [simp del] sort_Search_loop.simps [simp del] shift_right.simps [simp del]
  first_free.simps [simp del] shrink16_loop.simps [simp del] shrink48_loop.simps [simp del]
  shrink256_loop.simps [simp del] shift_left.simps [simp del] lcp_loop.simps [simp del]

text \<open>
  C1. Insert is claimed never to panic. After the keys \<open>ab\<close> and \<open>ac\<close> the root is a
  node4 with prefix \<open>a\<close>; inserting the key \<open>a\<close> matches the whole prefix and then
  reads \<open>key[1]\<close>, which is out of range: the call panics.
\<close>

theorem Insert_shorter_key_panics:
  "Inserts newArt [([0x61, 0x62], Some (1::nat)), ([0x61, 0x63], Some 2), ([0x61], Some 3)] = None"
  by code_simp

text \<open>
  C2, as stated, fails: after inserting the distinct keys \<open>a\<close> and \<open>a\<close> followed by a
  zero byte, both leaves hang under edge byte 0, and Search finds nothing for the
  second key.
\<close>

theorem roundtrip_counterexample:
  "(Inserts newArt [([0x61], Some (1::nat)), ([0x61, 0], Some 2)] \<bind> (\<lambda>t. Search t [0x61, 0]))
   = Some None"
  by code_simp

text \<open>
  C3, as stated, fails: in the tree of the keys \<open>a\<close> and \<open>a\<close> followed by a zero
  byte, inserting the second key again makes the size 3, and Search still finds
  nothing for it.
\<close>

theorem overwrite_counterexample:
  "(Inserts newArt [([0x61], Some (1::nat)), ([0x61, 0], Some 2), ([0x61, 0], Some 3)]
      \<bind> (\<lambda>t. Some (Size t, Search t [0x61, 0])))
   = Some (3, Some None)"
  by code_simp

text \<open>
  C4, as stated, fails: the empty key is present after it was inserted, and Delete
  returns false for it.
\<close>

theorem Delete_present_counterexample:
  "(Insert newArt [] (Some (1::nat))
      \<bind> (\<lambda>t. Some (map_option leafKeys (Each t), map_option fst (Delete zeroHdr t []))))
   = Some (Some [[]], Some False)"
  by code_simp

text \<open>
  C5, as stated, fails: after inserting \<open>a\<close> followed by a zero byte, and then \<open>a\<close>,
  Each visits the longer key first, although the shorter one is the smaller.
\<close>

theorem Each_order_counterexample:
  "(Inserts newArt [([0x61, 0], Some (1::nat)), ([0x61], Some 2)] \<bind> Each
      \<bind> (\<lambda>ns. Some (leafKeys ns, sorted (leafKeys ns))))
   = Some ([[0x61, 0], [0x61]], False)"
  by code_simp

text \<open>
  C6, as stated, fails: after inserting \<open>a\<close> and \<open>a\<close> followed by a zero byte the
  root is a node4 whose two keys are both 0, not strictly ascending.
\<close>

theorem node_invariant_counterexample:
  "(Inserts newArt [([0x61], Some (1::nat)), ([0x61, 0], Some 2)] \<bind> Each
      \<bind> (\<lambda>ns. Some (map inner_ok ns)))
   = Some [False, True, True]"
  by code_simp




subsection \<open>Indexing, memcpy\<close>

lemma int_plus1: "int i + 1 = int (Suc i)" by simp

lemma at_int [simp]: "at xs (int i) = (if i < length xs then Some (xs ! i) else None)"
  by (simp add: at_def)

lemma store_int [simp]: "store xs (int i) v = (if i < length xs then Some (xs[i := v]) else None)"
  by (simp add: store_def)

lemma at_zero [simp]: "at xs 0 = (if xs = [] then None else Some (xs ! 0))"
  by (simp add: at_def)

lemma at_numeral [simp]:
  "at xs (numeral k) = (if numeral k < length xs then Some (xs ! numeral k) else None)"
  by (simp add: at_def)

lemma store_numeral [simp]:
  "store xs (numeral k) v = (if numeral k < length xs then Some (xs[numeral k := v]) else None)"
  by (simp add: store_def)

lemma store_zero [simp]: "store xs 0 v = (if xs = [] then None else Some (xs[0 := v]))"
  by (simp add: store_def)

lemma at_Some_iff: "at xs i = Some x \<longleftrightarrow> 0 \<le> i \<and> nat i < length xs \<and> xs ! nat i = x"
  by (auto simp: at_def)

lemma memcpy_loop_spec:
  "i \<le> min (nat n) (min (length src) (length dst)) \<Longrightarrow>
   memcpy_loop dst src n (int i) =
     take i dst @ drop i (take (min (nat n) (min (length src) (length dst))) src)
       @ drop (min (nat n) (min (length src) (length dst))) dst"
proof (induction "min (nat n) (min (length src) (length dst)) - i" arbitrary: i dst)
  case 0
  then have "i = min (nat n) (min (length src) (length dst))" by simp
  then show ?case
    by (subst memcpy_loop.simps) auto
next
  case (Suc d)
  let ?k = "min (nat n) (min (length src) (length dst))"
  from Suc(2) have lt: "i < ?k" by arith
  have len: "length (dst[i := src ! i]) = length dst" by simp
  from lt have lt': "int i < n" by linarith
  have "memcpy_loop dst src n (int i) = memcpy_loop (dst[i := src ! i]) src n (int i + 1)"
    using lt lt' by (subst memcpy_loop.simps) simp
  then have "memcpy_loop dst src n (int i) = memcpy_loop (dst[i := src ! i]) src n (int (Suc i))"
    by (simp add: add.commute)
  also have "\<dots> = take (Suc i) (dst[i := src ! i]) @ drop (Suc i) (take ?k src) @ drop ?k (dst[i := src ! i])"
    using Suc(1) [of "dst[i := src ! i]" "Suc i"] Suc(2) lt by simp
  also have "take (Suc i) (dst[i := src ! i]) = take i dst @ [src ! i]"
    using lt by (simp add: take_Suc_conv_app_nth)
  also have "drop ?k (dst[i := src ! i]) = drop ?k dst"
    using lt by simp
  also have "(take i dst @ [src ! i]) @ drop (Suc i) (take ?k src) @ drop ?k dst
             = take i dst @ drop i (take ?k src) @ drop ?k dst"
    using lt by (simp add: Cons_nth_drop_Suc [symmetric])
  finally show ?case .
qed

lemma memcpy_spec:
  "memcpy dst src n =
     take (min (nat n) (min (length src) (length dst))) src
       @ drop (min (nat n) (min (length src) (length dst))) dst"
  using memcpy_loop_spec [of 0 n src dst] by (simp add: memcpy_def)

lemma length_memcpy [simp]: "length (memcpy dst src n) = length dst"
  by (simp add: memcpy_spec)

lemma slice_from_int [simp]:
  "slice_from xs (int i) = (if i \<le> length xs then Some (drop i xs) else None)"
  by (simp add: slice_from_def)

lemma shrink_merge_eval:
  assumes lm: "length (prefix_n pm) = 10" and lc: "length (prefix_n cm) = 10"
    and lp: "prefixLen pm = int lp" and cp: "prefixLen cm = int cp" and ks: "ks \<noteq> []"
  shows "shrink_merge pm ks cm =
           Some (cm\<lparr>prefix_n :=
                      (if lp < 10
                       then take lp (prefix_n pm) @ [ks ! 0] @ take (min cp (9 - lp)) (prefix_n cm)
                              @ drop (Suc lp + min cp (9 - lp)) (prefix_n cm)
                       else prefix_n pm),
                    prefixLen := prefixLen cm + (prefixLen pm + 1)\<rparr>)"
proof (cases "lp < 10")
  case False
  then show ?thesis
    using lm lc lp cp
    by (simp add: shrink_merge_def maxPrefixLen_def memcpy_spec Let_def)
next
  case True
  let ?P = "prefix_n pm" and ?C = "prefix_n cm"
  let ?b1 = "?P[lp := ks ! 0]"
  have s1: "(if prefixLen pm < maxPrefixLen
             then do { k0 \<leftarrow> at ks 0; b \<leftarrow> store ?P (prefixLen pm) k0; Some (b, prefixLen pm + 1) }
             else Some (?P, prefixLen pm)) = Some (?b1, int (Suc lp))"
    using True lm lp ks by (simp add: maxPrefixLen_def)
  show ?thesis
  proof (cases "Suc lp < 10")
    case False
    with True have l9: "lp = 9" by simp
    have "shrink_merge pm ks cm =
            Some (cm\<lparr>prefix_n := memcpy ?C ?b1 (min (int (Suc lp)) maxPrefixLen),
                     prefixLen := prefixLen cm + (prefixLen pm + 1)\<rparr>)"
      unfolding shrink_merge_def Let_def s1 using False
      by (simp add: maxPrefixLen_def del: of_nat_Suc)
    moreover have "memcpy ?C ?b1 (min (int (Suc lp)) maxPrefixLen) = ?b1"
      using l9 lm lc by (simp add: memcpy_spec maxPrefixLen_def)
    moreover have "?b1 = take lp ?P @ [ks ! 0]"
      using l9 lm by (simp add: upd_conv_take_nth_drop)
    ultimately show ?thesis using True l9 lc by simp
  next
    case lt9: True
    let ?c = "min cp (9 - lp)"
    let ?b2 = "take (Suc lp) ?b1 @ memcpy (drop (Suc lp) ?b1) ?C (int ?c)"
    have m: "min (prefixLen cm) (10 - int (Suc lp)) = int ?c"
      using lt9 cp by simp
    have n: "nat (int (Suc lp)) = Suc lp" by simp
    have s2: "shrink_merge pm ks cm =
            Some (cm\<lparr>prefix_n := memcpy ?C ?b2 (min (int (Suc lp) + int ?c) maxPrefixLen),
                     prefixLen := prefixLen cm + (prefixLen pm + 1)\<rparr>)"
      unfolding shrink_merge_def Let_def s1 using lt9 lm
      by (simp add: m n maxPrefixLen_def del: of_nat_Suc of_nat_min)
    have b2: "?b2 = take lp ?P @ [ks ! 0] @ take ?c ?C @ drop (Suc lp + ?c) ?P"
      using lt9 lm lc by (simp add: memcpy_spec take_Suc_conv_app_nth min_def ac_simps)
    have len: "length ?b2 = 10"
      using lt9 lm lc by simp
    have k: "min (nat (min (int (Suc lp) + int ?c) maxPrefixLen)) (min (length ?b2) (length ?C))
             = Suc lp + ?c"
      unfolding len lc maxPrefixLen_def using lt9 by simp
    have "memcpy ?C ?b2 (min (int (Suc lp) + int ?c) maxPrefixLen)
            = take (Suc lp + ?c) ?b2 @ drop (Suc lp + ?c) ?C"
      by (simp only: memcpy_spec [of "prefix_n cm"] k)
    also have "take (Suc lp + ?c) ?b2 = take lp ?P @ [ks ! 0] @ take ?c ?C"
      unfolding b2 using lt9 lm lc by simp
    finally show ?thesis
      using s2 True by simp
  qed
qed

lemma shrink_merge_spec:
  assumes lm: "length (prefix_n pm) = 10" and lc: "length (prefix_n cm) = 10"
    and p0: "0 \<le> prefixLen pm" and c0: "0 \<le> prefixLen cm" and ks: "ks \<noteq> []"
  shows "\<exists>cm'. shrink_merge pm ks cm = Some cm'
           \<and> prefixLen cm' = prefixLen cm + prefixLen pm + 1
           \<and> size_n cm' = size_n cm
           \<and> length (prefix_n cm') = 10
           \<and> take (length (take 10 (storedPrefix pm @ [ks ! 0] @ storedPrefix cm))) (prefix_n cm')
               = take 10 (storedPrefix pm @ [ks ! 0] @ storedPrefix cm)"
proof -
  obtain lp where lp: "prefixLen pm = int lp" using p0 by (metis nat_0_le)
  obtain cp where cp: "prefixLen cm = int cp" using c0 by (metis nat_0_le)
  note ev = shrink_merge_eval [OF lm lc lp cp ks]
  show ?thesis
  proof (cases "lp < 10")
    case False
    then show ?thesis
      unfolding ev using lm lc lp cp
      by (simp add: storedPrefix_def maxPrefixLen_def)
  next
    case True
    have sp: "storedPrefix pm = take lp (prefix_n pm)"
      using True lp by (simp add: storedPrefix_def maxPrefixLen_def)
    have "min (int cp) 10 = int (min cp 10)" by simp
    then have sc: "storedPrefix cm = take (min cp 10) (prefix_n cm)"
      unfolding storedPrefix_def maxPrefixLen_def cp by (simp del: of_nat_min)
    have t: "take 10 (storedPrefix pm @ [ks ! 0] @ storedPrefix cm)
             = take lp (prefix_n pm) @ [ks ! 0] @ take (min cp (9 - lp)) (prefix_n cm)"
    proof -
      have e: "10 - lp = Suc (9 - lp)" using True by simp
      show ?thesis
        unfolding sp sc using True lm lc by (simp add: e min_def)
    qed
    have l: "length (take lp (prefix_n pm) @ [ks ! 0] @ take (min cp (9 - lp)) (prefix_n cm))
             = Suc lp + min cp (9 - lp)"
      using True lm lc by simp
    show ?thesis
      unfolding ev t l using True lm lc lp cp
      by simp
  qed
qed

section \<open>Library: the loops and the directory of a node\<close>

lemma at_int_plus1 [simp]:
  "at xs (int i + 1) = (if Suc i < length xs then Some (xs ! Suc i) else None)"
  "at xs (1 + int i) = (if Suc i < length xs then Some (xs ! Suc i) else None)"
  by (auto simp: at_def nat_add_distrib)

lemma store_int_plus1 [simp]:
  "store xs (int i + 1) v = (if Suc i < length xs then Some (xs[Suc i := v]) else None)"
  "store xs (1 + int i) v = (if Suc i < length xs then Some (xs[Suc i := v]) else None)"
  by (auto simp: store_def nat_add_distrib)

lemma drop_upd_same: "i < length xs \<Longrightarrow> drop i (xs[i := v]) = v # drop (Suc i) xs"
  using Cons_nth_drop_Suc [of i "xs[i := v]"] by simp

lemma drop_take_Cons:
  "i < s \<Longrightarrow> s \<le> length xs \<Longrightarrow> drop i (take s xs) = xs ! i # drop (Suc i) (take s xs)"
  using Cons_nth_drop_Suc [of i "take s xs"] by simp

subsection \<open>IndexByte\<close>

lemma IndexByte_bounds: "- 1 \<le> IndexByte xs c \<and> IndexByte xs c < int (length xs)"
  by (induction xs) (auto simp: Let_def)

lemma IndexByte_notin: "c \<notin> set xs \<Longrightarrow> IndexByte xs c = - 1"
  by (induction xs) (auto simp: Let_def)

lemma IndexByte_first:
  "i < length xs \<Longrightarrow> xs ! i = c \<Longrightarrow> c \<notin> set (take i xs) \<Longrightarrow> IndexByte xs c = int i"
proof (induction xs arbitrary: i)
  case Nil
  then show ?case by simp
next
  case (Cons x xs)
  show ?case
  proof (cases i)
    case 0
    with Cons show ?thesis by simp
  next
    case (Suc j)
    with Cons.prems have "x \<noteq> c" "j < length xs" "xs ! j = c" "c \<notin> set (take j xs)"
      by auto
    with Cons.IH [of j] Suc show ?thesis by (simp add: Let_def)
  qed
qed

subsection \<open>The loops of the sorted nodes\<close>

lemma shift_right_spec:
  "idx \<le> i \<Longrightarrow> i < length ks \<Longrightarrow> i < length cs \<Longrightarrow>
   shift_right ks cs (int i) (int idx) =
     Some (take (Suc idx) ks @ drop idx (take i ks) @ drop (Suc i) ks,
           take (Suc idx) cs @ drop idx (take i cs) @ drop (Suc i) cs)"
proof (induction "i - idx" arbitrary: i ks cs)
  case 0
  then have "i = idx" by simp
  then show ?case
    by (subst shift_right.simps) simp
next
  case (Suc d)
  then obtain j where j: "i = Suc j" "idx \<le> j" by (cases i) auto
  let ?ks = "ks[i := ks ! j]" and ?cs = "cs[i := cs ! j]"
  have "shift_right ks cs (int i) (int idx) = shift_right ?ks ?cs (int j) (int idx)"
    using j Suc.prems by (subst shift_right.simps) simp
  also have "\<dots> = Some (take (Suc idx) ?ks @ drop idx (take j ?ks) @ drop (Suc j) ?ks,
                          take (Suc idx) ?cs @ drop idx (take j ?cs) @ drop (Suc j) ?cs)"
    using Suc.hyps(1) [of j ?ks ?cs] Suc.hyps(2) Suc.prems j by simp
  also have "take (Suc idx) ?ks = take (Suc idx) ks" using j by simp
  also have "take j ?ks = take j ks" using j by simp
  also have "drop (Suc j) ?ks = ks ! j # drop (Suc i) ks"
    using j Suc.prems by (simp add: drop_upd_same)
  also have "take (Suc idx) ?cs = take (Suc idx) cs" using j by simp
  also have "take j ?cs = take j cs" using j by simp
  also have "drop (Suc j) ?cs = cs ! j # drop (Suc i) cs"
    using j Suc.prems by (simp add: drop_upd_same)
  finally show ?case
    using j Suc.prems by (simp add: take_Suc_conv_app_nth)
qed


lemma shift_left_spec:
  "j < s \<Longrightarrow> s \<le> length ks \<Longrightarrow> s \<le> length cs \<Longrightarrow>
   shift_left ks cs (int s) (int j) =
     Some (take j ks @ drop (Suc j) (take s ks) @ drop (s - 1) ks,
           take j cs @ drop (Suc j) (take s cs) @ drop (s - 1) cs)"
proof (induction "s - Suc j" arbitrary: j ks cs)
  case 0
  then have e: "s = Suc j" by simp
  then show ?case
    by (subst shift_left.simps) simp
next
  case (Suc d)
  then have lt: "Suc j < s" by simp
  let ?ks = "ks[j := ks ! Suc j]" and ?cs = "cs[j := cs ! Suc j]"
  have "shift_left ks cs (int s) (int j) = shift_left ?ks ?cs (int s) (int (Suc j))"
    using lt Suc.prems by (subst shift_left.simps) (simp add: add.commute)
  also have "\<dots> = Some (take (Suc j) ?ks @ drop (Suc (Suc j)) (take s ?ks) @ drop (s - 1) ?ks,
                          take (Suc j) ?cs @ drop (Suc (Suc j)) (take s ?cs) @ drop (s - 1) ?cs)"
    using Suc.hyps(1) [of "Suc j" ?ks ?cs] Suc.hyps(2) Suc.prems lt by simp
  also have "take (Suc j) ?ks = take j ks @ [ks ! Suc j]"
    using lt Suc.prems by (simp add: take_Suc_conv_app_nth)
  also have "drop (Suc (Suc j)) (take s ?ks) = drop (Suc (Suc j)) (take s ks)"
    by (simp add: drop_take)
  also have "drop (s - 1) ?ks = drop (s - 1) ks" using lt by simp
  also have "take (Suc j) ?cs = take j cs @ [cs ! Suc j]"
    using lt Suc.prems by (simp add: take_Suc_conv_app_nth)
  also have "drop (Suc (Suc j)) (take s ?cs) = drop (Suc (Suc j)) (take s cs)"
    by (simp add: drop_take)
  also have "drop (s - 1) ?cs = drop (s - 1) cs" using lt by simp
  finally show ?case
    using lt Suc.prems by (simp add: drop_take_Cons [of "Suc j"])
qed

lemma node4_pos_spec:
  "i \<le> s \<Longrightarrow> s \<le> length ks \<Longrightarrow>
   node4_pos b ks (int s) (int i)
     = Some (int (i + length (takeWhile (\<lambda>k. \<not> b < k) (drop i (take s ks)))))"
proof (induction "s - i" arbitrary: i)
  case 0
  then show ?case
    by (subst node4_pos.simps) simp
next
  case (Suc d)
  then have lt: "i < s" by simp
  have d: "drop i (take s ks) = ks ! i # drop (Suc i) (take s ks)"
    using lt Suc.prems by (simp add: drop_take_Cons)
  show ?case
  proof (cases "b < ks ! i")
    case True
    then show ?thesis
      using lt Suc.prems by (subst node4_pos.simps) (simp add: d)
  next
    case False
    have "node4_pos b ks (int s) (int i) = node4_pos b ks (int s) (int (Suc i))"
      using lt Suc.prems False by (subst node4_pos.simps) (simp add: add.commute)
    then show ?thesis
      using Suc.hyps(1) [of "Suc i"] Suc.hyps(2) Suc.prems lt False by (simp add: d)
  qed
qed

lemma sort_Search_loop_spec:
  assumes f: "\<And>i. i < n \<Longrightarrow> f (int i) = Some (p i)"
    and mono: "\<And>i j. i \<le> j \<Longrightarrow> j < n \<Longrightarrow> p i \<Longrightarrow> p j"
  shows "lo \<le> hi \<Longrightarrow> hi \<le> n \<Longrightarrow> (\<forall>i<lo. \<not> p i) \<Longrightarrow> (\<forall>i. hi \<le> i \<and> i < n \<longrightarrow> p i) \<Longrightarrow>
         \<exists>r. sort_Search_loop f (int lo) (int hi) = Some (int r) \<and> lo \<le> r \<and> r \<le> hi
              \<and> (\<forall>i<r. \<not> p i) \<and> (\<forall>i. r \<le> i \<and> i < n \<longrightarrow> p i)"
proof (induction "hi - lo" arbitrary: lo hi rule: less_induct)
  case less
  show ?case
  proof (cases "lo < hi")
    case False
    with less.prems have "lo = hi" by simp
    with less.prems show ?thesis
      by (subst sort_Search_loop.simps) auto
  next
    case True
    define h where "h = (lo + hi) div 2"
    have h: "lo \<le> h" "h < hi" "(int lo + int hi) div 2 = int h"
      using True by (auto simp: h_def zdiv_int)
    have fh: "f (int h) = Some (p h)" using f [of h] h less.prems by simp
    show ?thesis
    proof (cases "p h")
      case True
      have "\<forall>i. h \<le> i \<and> i < n \<longrightarrow> p i" using mono True by blast
      have m: "h - lo < hi - lo" using h by simp
      have "\<exists>r. sort_Search_loop f (int lo) (int h) = Some (int r) \<and> lo \<le> r \<and> r \<le> h
              \<and> (\<forall>i<r. \<not> p i) \<and> (\<forall>i. r \<le> i \<and> i < n \<longrightarrow> p i)"
        using h less.prems \<open>\<forall>i. h \<le> i \<and> i < n \<longrightarrow> p i\<close>
        by (intro less.hyps [OF m]) auto
      then obtain r where "sort_Search_loop f (int lo) (int h) = Some (int r)" "lo \<le> r" "r \<le> h"
          "\<forall>i<r. \<not> p i" "\<forall>i. r \<le> i \<and> i < n \<longrightarrow> p i"
        by auto
      moreover have "sort_Search_loop f (int lo) (int hi) = sort_Search_loop f (int lo) (int h)"
        using \<open>lo < hi\<close> h fh True by (subst sort_Search_loop.simps) (simp add: Let_def)
      ultimately show ?thesis using h by auto
    next
      case False
      have "\<forall>i<Suc h. \<not> p i"
      proof (intro allI impI)
        fix i assume "i < Suc h"
        then have "i \<le> h" by simp
        with mono [of i h] h less.prems False show "\<not> p i" by auto
      qed
      have m: "hi - Suc h < hi - lo" using h by simp
      have "\<exists>r. sort_Search_loop f (int (Suc h)) (int hi) = Some (int r) \<and> Suc h \<le> r \<and> r \<le> hi
              \<and> (\<forall>i<r. \<not> p i) \<and> (\<forall>i. r \<le> i \<and> i < n \<longrightarrow> p i)"
        using h less.prems \<open>\<forall>i<Suc h. \<not> p i\<close>
        by (intro less.hyps [OF m]) auto
      then obtain r where "sort_Search_loop f (int (Suc h)) (int hi) = Some (int r)" "Suc h \<le> r" "r \<le> hi"
          "\<forall>i<r. \<not> p i" "\<forall>i. r \<le> i \<and> i < n \<longrightarrow> p i"
        by auto
      moreover have "sort_Search_loop f (int lo) (int hi) = sort_Search_loop f (int (Suc h)) (int hi)"
        using \<open>lo < hi\<close> h fh False by (subst sort_Search_loop.simps) (simp add: Let_def add.commute)
      ultimately show ?thesis using h by auto
    qed
  qed
qed

lemma unat_of_nat_byte [simp]: "i < 256 \<Longrightarrow> unat (of_nat i :: byte) = i"
  by (simp add: unat_of_nat)

lemma int_of_byte_of [simp]: "i < 256 \<Longrightarrow> int_of (byte_of (int i)) = int i"
  by (simp add: int_of_def byte_of_def uint_nat)

lemma unat_byte_of [simp]: "i < 256 \<Longrightarrow> unat (byte_of (int i)) = i"
  by (simp add: byte_of_def)

lemma int_of_unat: "int_of b = int (unat b)"
  unfolding int_of_def by (rule uint_nat)

lemma unat_byte_less [simp]: "unat (b :: byte) < 256"
proof -
  have "unat b < 2 ^ LENGTH(8)" by (rule unsigned_less)
  then show ?thesis by simp
qed

lemma of_nat_unat_byte [simp]: "byte_of (int (unat b)) = b"
  by (simp add: byte_of_def)

lemma memmove_loop_spec:
  "i \<le> nat n \<Longrightarrow> nat n \<le> length src \<Longrightarrow> nat n \<le> length dst \<Longrightarrow>
   memmove_loop dst src n (int i) = Some (take i dst @ drop i (take (nat n) src) @ drop (nat n) dst)"
proof (induction "nat n - i" arbitrary: i dst)
  case 0
  then have "\<not> int i < n" "i = nat n" by linarith+
  with 0 show ?case
    by (subst memmove_loop.simps) simp
next
  case (Suc d)
  then have lt: "i < nat n" "int i < n" by linarith+
  let ?dst = "dst[i := src ! i]"
  have "memmove_loop dst src n (int i) = memmove_loop ?dst src n (int (Suc i))"
    using lt Suc.prems by (subst memmove_loop.simps) (simp add: add.commute)
  also have "\<dots> = Some (take (Suc i) ?dst @ drop (Suc i) (take (nat n) src) @ drop (nat n) ?dst)"
    using Suc.hyps(1) [of "Suc i" ?dst] Suc.hyps(2) Suc.prems lt by simp
  also have "take (Suc i) ?dst = take i dst @ [src ! i]"
    using lt Suc.prems by (simp add: take_Suc_conv_app_nth)
  also have "drop (nat n) ?dst = drop (nat n) dst" using lt by simp
  finally show ?case
    using lt Suc.prems by (simp add: drop_take_Cons [of i])
qed

lemma memmove_spec:
  "nat n \<le> length src \<Longrightarrow> nat n \<le> length dst \<Longrightarrow>
   memmove dst src n = Some (take (nat n) src @ drop (nat n) dst)"
  using memmove_loop_spec [of 0 n src dst] by (simp add: memmove_def)

lemma memmove_within_loop_spec:
  "i \<le> nat n \<Longrightarrow> off + nat n \<le> length arr \<Longrightarrow> 0 < off \<Longrightarrow>
   memmove_within_loop arr (int off) n (int i)
     = Some (take i arr @ drop (off + i) (take (off + nat n) arr) @ drop (nat n) arr)"
proof (induction "nat n - i" arbitrary: i arr)
  case 0
  then have "\<not> int i < n" "i = nat n" by linarith+
  with 0 show ?case
    by (subst memmove_within_loop.simps) simp
next
  case (Suc d)
  then have lt: "i < nat n" "int i < n" by linarith+
  let ?arr = "arr[i := arr ! (off + i)]"
  have n: "nat (int off + int i) = off + i" "nat (int i + int off) = i + off"
    by (simp_all add: nat_add_distrib)
  have "memmove_within_loop arr (int off) n (int i) = memmove_within_loop ?arr (int off) n (int (Suc i))"
    using lt Suc.prems by (subst memmove_within_loop.simps) (simp add: add.commute n)
  also have "\<dots> = Some (take (Suc i) ?arr @ drop (off + Suc i) (take (off + nat n) ?arr) @ drop (nat n) ?arr)"
    using Suc.hyps(1) [of "Suc i" ?arr] Suc.hyps(2) Suc.prems lt by simp
  also have "take (Suc i) ?arr = take i arr @ [arr ! (off + i)]"
    using lt Suc.prems by (simp add: take_Suc_conv_app_nth)
  also have "drop (nat n) ?arr = drop (nat n) arr" using lt by simp
  also have "drop (off + Suc i) (take (off + nat n) ?arr) = drop (off + Suc i) (take (off + nat n) arr)"
    using Suc.prems by (simp add: drop_take)
  finally show ?case
    using lt Suc.prems drop_take_Cons [of "off + i" "off + nat n" arr] by simp
qed

lemma memmove_within_spec:
  "0 < off \<Longrightarrow> off + nat n \<le> length arr \<Longrightarrow>
   memmove_within arr (int off) n = Some (take (nat n) (drop off arr) @ drop (nat n) arr)"
  using memmove_within_loop_spec [of 0 n off arr]
  by (simp add: memmove_within_def take_drop add.commute)

lemma copyMeta_spec:
  "length (prefix_n from) = 10 \<Longrightarrow>
   copyMeta zeroNode from =
     Some \<lparr>size_n = size_n from, prefixLen = prefixLen from,
           prefix_n = storedPrefix from @ replicate (10 - length (storedPrefix from)) 0\<rparr>"
proof -
  assume l: "length (prefix_n from) = 10"
  have "nat (min (prefixLen from) maxPrefixLen) \<le> 10"
    by (simp add: maxPrefixLen_def)
  then show ?thesis
    using l by (simp add: copyMeta_def memmove_spec zeroNode_def storedPrefix_def min_def)
qed

lemma grow4_loop_spec:
  "i \<le> sz \<Longrightarrow> sz \<le> length ks \<Longrightarrow> sz \<le> length cs \<Longrightarrow> sz \<le> length nks \<Longrightarrow> sz \<le> length ncs \<Longrightarrow>
   grow4_loop ks cs nks ncs (int sz) (int i)
     = Some (take i nks @ drop i (take sz ks) @ drop sz nks,
             take i ncs @ drop i (take sz cs) @ drop sz ncs)"
proof (induction "sz - i" arbitrary: i nks ncs)
  case 0
  then show ?case
    by (subst grow4_loop.simps) simp
next
  case (Suc d)
  then have lt: "i < sz" by simp
  let ?nks = "nks[i := ks ! i]" and ?ncs = "ncs[i := cs ! i]"
  have "grow4_loop ks cs nks ncs (int sz) (int i) = grow4_loop ks cs ?nks ?ncs (int sz) (int (Suc i))"
    using lt Suc.prems by (subst grow4_loop.simps) (simp add: add.commute)
  also have "\<dots> = Some (take (Suc i) ?nks @ drop (Suc i) (take sz ks) @ drop sz ?nks,
                          take (Suc i) ?ncs @ drop (Suc i) (take sz cs) @ drop sz ?ncs)"
    using Suc.hyps(1) [of "Suc i" ?nks ?ncs] Suc.hyps(2) Suc.prems lt by simp
  also have "take (Suc i) ?nks = take i nks @ [ks ! i]"
    using lt Suc.prems by (simp add: take_Suc_conv_app_nth)
  also have "take (Suc i) ?ncs = take i ncs @ [cs ! i]"
    using lt Suc.prems by (simp add: take_Suc_conv_app_nth)
  also have "drop sz ?nks = drop sz nks" using lt by simp
  also have "drop sz ?ncs = drop sz ncs" using lt by simp
  finally show ?case
    using lt Suc.prems by (simp add: drop_take_Cons [of i])
qed

lemma shrink16_loop_spec:
  "i \<le> sz \<Longrightarrow> sz \<le> length ks \<Longrightarrow> sz \<le> length cs \<Longrightarrow> sz \<le> length nks \<Longrightarrow> sz \<le> length ncs \<Longrightarrow>
   shrink16_loop ks cs nks ncs (int i) (int sz) (int i)
     = Some (take i nks @ drop i (take sz ks) @ drop sz nks,
             take i ncs @ drop i (take sz cs) @ drop sz ncs, int sz)"
proof (induction "sz - i" arbitrary: i nks ncs)
  case 0
  then show ?case
    by (subst shrink16_loop.simps) simp
next
  case (Suc d)
  then have lt: "i < sz" by simp
  let ?nks = "nks[i := ks ! i]" and ?ncs = "ncs[i := cs ! i]"
  have "shrink16_loop ks cs nks ncs (int i) (int sz) (int i)
          = shrink16_loop ks cs ?nks ?ncs (int (Suc i)) (int sz) (int (Suc i))"
    using lt Suc.prems by (subst shrink16_loop.simps) (simp add: add.commute)
  also have "\<dots> = Some (take (Suc i) ?nks @ drop (Suc i) (take sz ks) @ drop sz ?nks,
                          take (Suc i) ?ncs @ drop (Suc i) (take sz cs) @ drop sz ?ncs, int sz)"
    using Suc.hyps(1) [of "Suc i" ?nks ?ncs] Suc.hyps(2) Suc.prems lt by simp
  also have "take (Suc i) ?nks = take i nks @ [ks ! i]"
    using lt Suc.prems by (simp add: take_Suc_conv_app_nth)
  also have "take (Suc i) ?ncs = take i ncs @ [cs ! i]"
    using lt Suc.prems by (simp add: take_Suc_conv_app_nth)
  also have "drop sz ?nks = drop sz nks" using lt by simp
  also have "drop sz ?ncs = drop sz ncs" using lt by simp
  finally show ?case
    using lt Suc.prems by (simp add: drop_take_Cons [of i])
qed

subsection \<open>Sorted nodes: node4 and node16\<close>

lemma sorted_okD:
  assumes "sorted_ok cap m ks cs"
  shows "length ks = cap" "length cs = cap" "0 \<le> size_n m" "nat (size_n m) \<le> cap"
    "sorted_wrt (<) (take (nat (size_n m)) ks)"
    "distinct (take (nat (size_n m)) ks)"
    "\<And>i. i < nat (size_n m) \<Longrightarrow> cs ! i \<noteq> None"
    "\<And>i. nat (size_n m) \<le> i \<Longrightarrow> i < cap \<Longrightarrow> ks ! i = 0"
    "\<And>i. nat (size_n m) \<le> i \<Longrightarrow> i < cap \<Longrightarrow> cs ! i = None"
proof -
  let ?s = "nat (size_n m)"
  from assms show l: "length ks = cap" "length cs = cap" "0 \<le> size_n m" "?s \<le> cap"
    and s: "sorted_wrt (<) (take ?s ks)"
    by (auto simp: sorted_ok_def)
  from s show "distinct (take ?s ks)"
    by (simp add: strict_sorted_iff)
  from assms have a: "list_all (\<lambda>c. c \<noteq> None) (take ?s cs)"
    and z: "list_all (\<lambda>k. k = 0) (drop ?s ks)" and n: "list_all (\<lambda>c. c = None) (drop ?s cs)"
    by (auto simp: sorted_ok_def)
  show "cs ! i \<noteq> None" if "i < ?s" for i
    using a that l by (auto simp: list_all_length)
  show "ks ! i = 0" if "?s \<le> i" "i < cap" for i
    using z that l by (auto simp: list_all_length dest: spec [of _ "i - ?s"])
  show "cs ! i = None" if "?s \<le> i" "i < cap" for i
    using n that l by (auto simp: list_all_length dest: spec [of _ "i - ?s"])
qed


lemma sorted_find_in:
  assumes ok: "sorted_ok cap m ks cs" and ty: "ty = Node4 \<or> ty = Node16"
    and i: "i < nat (size_n m)"
  shows "findChild (Inner ty m ks cs) (ks ! i) = Some (ChildAt (int i))"
    and "childAt (Inner ty m ks cs) (ks ! i) = Some (cs ! i)"
    and "lookup (Inner ty m ks cs) (ks ! i) = cs ! i"
proof -
  note d = sorted_okD [OF ok]
  let ?s = "nat (size_n m)"
  have il: "i < length ks" using i d by simp
  have "take i ks = take i (take ?s ks)" using i by (simp add: min_def)
  moreover have "(take ?s ks) ! i = ks ! i" using i by simp
  ultimately have "ks ! i \<notin> set (take i ks)"
    using d(6) i il
    by (metis distinct_take id_take_nth_drop length_take min.absorb2 nat_less_le
        not_distinct_conv_prefix d(1) d(4))
  from IndexByte_first [OF il refl this]
  have ib: "IndexByte ks (ks ! i) = int i" .
  show f: "findChild (Inner ty m ks cs) (ks ! i) = Some (ChildAt (int i))"
    using ty ib il d by auto
  then show c: "childAt (Inner ty m ks cs) (ks ! i) = Some (cs ! i)"
    using il d by (simp add: childAt_def)
  then show "lookup (Inner ty m ks cs) (ks ! i) = cs ! i"
    by (simp add: lookup_def)
qed

lemma sorted_find_out:
  assumes ok: "sorted_ok cap m ks cs" and ty: "ty = Node4 \<or> ty = Node16"
    and b: "b \<notin> set (take (nat (size_n m)) ks)"
  shows "childAt (Inner ty m ks cs) b = Some None"
    and "lookup (Inner ty m ks cs) b = None"
proof -
  note d = sorted_okD [OF ok]
  define s where "s = nat (size_n m)"
  have sz: "size_n m = int s" using d(3) by (simp add: s_def)
  show c: "childAt (Inner ty m ks cs) b = Some None"
  proof (cases "b \<in> set ks")
    case False
    then show ?thesis
      using ty by (auto simp: childAt_def IndexByte_notin)
  next
    case True
    then obtain j where j: "j < length ks" "ks ! j = b" by (auto simp: in_set_conv_nth)
    with b have "\<not> j < s" by (auto simp: in_set_conv_nth s_def)
    with j d have b0: "b = 0" and sl: "s < cap" by (auto simp: s_def)
    have "ks ! s = 0" using d(8) [of s] sl by (simp add: s_def)
    with IndexByte_first [of s ks b] b b0 sl d
    have "IndexByte ks b = int s" by (simp add: s_def)
    moreover have "cs ! s = None" using d(9) [of s] sl by (simp add: s_def)
    ultimately show ?thesis
      using ty sl d(1,2) by (auto simp: childAt_def)
  qed
  then show "lookup (Inner ty m ks cs) b = None"
    by (simp add: lookup_def)
qed

lemma dropWhile_downclosed:
  "sorted xs \<Longrightarrow> (\<And>x y. x \<le> y \<Longrightarrow> P y \<Longrightarrow> P x) \<Longrightarrow> \<forall>k \<in> set (dropWhile P xs). \<not> P k"
proof (induction xs)
  case Nil
  then show ?case by simp
next
  case (Cons x xs)
  show ?case
  proof (cases "P x")
    case True
    with Cons show ?thesis by simp
  next
    case False
    have "\<not> P y" if "y \<in> set xs" for y
      using Cons.prems(1) Cons.prems(2) [of x y] that False by auto
    with False show ?thesis by auto
  qed
qed

lemma takeWhile_split:
  fixes K :: "'a::linorder list"
  assumes "sorted_wrt (<) K" and dc: "\<And>x y. x \<le> y \<Longrightarrow> P y \<Longrightarrow> P x"
  defines "idx \<equiv> length (takeWhile P K)"
  shows "idx \<le> length K" "\<forall>k \<in> set (take idx K). P k" "\<forall>k \<in> set (drop idx K). \<not> P k"
proof -
  show "idx \<le> length K" by (simp add: idx_def length_takeWhile_le)
  have "take idx K = takeWhile P K"
    unfolding idx_def by (rule takeWhile_eq_take [symmetric])
  then show "\<forall>k \<in> set (take idx K). P k"
    by (auto dest: set_takeWhileD)
  have "drop idx K = dropWhile P K"
    unfolding idx_def by (rule dropWhile_eq_drop [symmetric])
  with dropWhile_downclosed [of K P] assms(1) dc
  show "\<forall>k \<in> set (drop idx K). \<not> P k"
    by (auto simp: strict_sorted_iff)
qed

lemma addChild_node4:
  fixes b :: byte
  assumes ok: "sorted_ok 4 m ks cs" and sz: "size_n m = int s" and lt: "s < 4"
  defines "idx \<equiv> length (takeWhile (\<lambda>k. \<not> b < k) (take s ks))"
  shows "addChild (Inner Node4 m ks cs) b c =
           Some (Inner Node4 (m\<lparr>size_n := int (Suc s)\<rparr>)
                  (take idx ks @ [b] @ drop idx (take s ks) @ drop (Suc s) ks)
                  (take idx cs @ [Some c] @ drop idx (take s cs) @ drop (Suc s) cs))"
proof -
  note d = sorted_okD [OF ok]
  have il: "idx \<le> s" unfolding idx_def using d lt
    by (metis length_take length_takeWhile_le min.absorb2 sz nat_int less_imp_le_nat)
  have nf: "\<not> isFull Node4 m" using sz lt by (simp add: isFull_def node4Max_def)
  have sh: "shift_right ks cs (int s) (int idx) =
     Some (take (Suc idx) ks @ drop idx (take s ks) @ drop (Suc s) ks,
           take (Suc idx) cs @ drop idx (take s cs) @ drop (Suc s) cs)"
    using shift_right_spec [of idx s ks cs] il lt d by simp
  have u1: "(take (Suc idx) ks @ drop idx (take s ks) @ drop (Suc s) ks)[idx := b]
            = take idx ks @ [b] @ drop idx (take s ks) @ drop (Suc s) ks"
    using il lt d by (simp add: list_update_append take_Suc_conv_app_nth)
  have u2: "(take (Suc idx) cs @ drop idx (take s cs) @ drop (Suc s) cs)[idx := Some c]
            = take idx cs @ [Some c] @ drop idx (take s cs) @ drop (Suc s) cs"
    using il lt d by (simp add: list_update_append take_Suc_conv_app_nth)
  show ?thesis
  proof (cases "s = 0")
    case True
    then have i0: "idx = 0" using il by simp
    have sr: "shift_right ks cs 0 0 = Some (ks, cs)"
      by (subst shift_right.simps) simp
    have "ks[0 := b] = b # drop (Suc 0) ks" "cs[0 := Some c] = Some c # drop (Suc 0) cs"
      using d(1,2) by (cases ks; cases cs; simp)+
    moreover have "ks \<noteq> []" "cs \<noteq> []" using d(1,2) by auto
    ultimately show ?thesis
      using nf True i0 by (simp add: sz sr)
  next
    case False
    have pos: "node4_pos b ks (int s) 0 = Some (int idx)"
      using node4_pos_spec [of 0 s ks b] lt d by (simp add: idx_def)
    show ?thesis
      using nf il lt d(1,2) False
      by (simp add: sz pos sh u1 u2 add.commute)
  qed
qed


lemma addChild_node16:
  fixes b :: byte
  assumes ok: "sorted_ok 16 m ks cs" and sz: "size_n m = int s" and lt: "s < 16"
  defines "idx \<equiv> length (takeWhile (\<lambda>k. k < b) (take s ks))"
  shows "addChild (Inner Node16 m ks cs) b c =
           Some (Inner Node16 (m\<lparr>size_n := int (Suc s)\<rparr>)
                  (take idx ks @ [b] @ drop idx (take s ks) @ drop (Suc s) ks)
                  (take idx cs @ [Some c] @ drop idx (take s cs) @ drop (Suc s) cs))"
proof -
  note d = sorted_okD [OF ok]
  have il: "idx \<le> s" unfolding idx_def using d lt
    by (metis length_take length_takeWhile_le min.absorb2 sz nat_int less_imp_le_nat)
  have nf: "\<not> isFull Node16 m" using sz lt by (simp add: isFull_def node16Max_def)
  have sh: "shift_right ks cs (int s) (int idx) =
     Some (take (Suc idx) ks @ drop idx (take s ks) @ drop (Suc s) ks,
           take (Suc idx) cs @ drop idx (take s cs) @ drop (Suc s) cs)"
    using shift_right_spec [of idx s ks cs] il lt d by simp
  have u1: "(take (Suc idx) ks @ drop idx (take s ks) @ drop (Suc s) ks)[idx := b]
            = take idx ks @ [b] @ drop idx (take s ks) @ drop (Suc s) ks"
    using il lt d by (simp add: list_update_append take_Suc_conv_app_nth)
  have u2: "(take (Suc idx) cs @ drop idx (take s cs) @ drop (Suc s) cs)[idx := Some c]
            = take idx cs @ [Some c] @ drop idx (take s cs) @ drop (Suc s) cs"
    using il lt d by (simp add: list_update_append take_Suc_conv_app_nth)
  show ?thesis
  proof (cases "s = 0")
    case True
    then have i0: "idx = 0" using il by simp
    have sr: "shift_right ks cs 0 0 = Some (ks, cs)"
      by (subst shift_right.simps) simp
    have "ks[0 := b] = b # drop (Suc 0) ks" "cs[0 := Some c] = Some c # drop (Suc 0) cs"
      using d(1,2) by (cases ks; cases cs; simp)+
    moreover have "ks \<noteq> []" "cs \<noteq> []" using d(1,2) by auto
    ultimately show ?thesis
      using nf True i0 by (simp add: sz sr)
  next
    case False
    let ?f = "\<lambda>i. map_option (\<lambda>k. b \<le> k) (at ks (int_of (byte_of i)))"
    let ?p = "\<lambda>i. b \<le> ks ! i"
    have srt: "sorted_wrt (<) (take s ks)" using d(5) sz by simp
    have f: "?f (int i) = Some (?p i)" if "i < s" for i
      using that lt d(1) by simp
    have mono: "?p j" if "i \<le> j" "j < s" "?p i" for i j
    proof (cases "i = j")
      case True
      with that show ?thesis by simp
    next
      case False
      with that have "i < j" by simp
      with sorted_wrt_nth_less [OF srt, of i j] that lt d(1)
      have "ks ! i < ks ! j" by simp
      with that show ?thesis by simp
    qed
    have "\<exists>r. sort_Search_loop ?f (int 0) (int s) = Some (int r) \<and> 0 \<le> r \<and> r \<le> s
              \<and> (\<forall>i<r. \<not> ?p i) \<and> (\<forall>i. r \<le> i \<and> i < s \<longrightarrow> ?p i)"
    proof (rule sort_Search_loop_spec [where n = s and p = ?p])
      show "?f (int i) = Some (?p i)" if "i < s" for i by (rule f [OF that])
      show "?p j" if "i \<le> j" "j < s" "?p i" for i j by (rule mono [OF that])
    qed auto
    then obtain r where r: "sort_Search_loop ?f 0 (int s) = Some (int r)" "r \<le> s"
      "\<forall>i<r. \<not> ?p i" "\<forall>i. r \<le> i \<and> i < s \<longrightarrow> ?p i"
      by auto
    have "takeWhile (\<lambda>k. k < b) (take s ks) = take r (take s ks)"
    proof (rule takeWhile_eq_take_P_nth)
      fix i assume "i < r" "i < length (take s ks)"
      with r show "take s ks ! i < b" by auto
    next
      assume "r < length (take s ks)"
      with r show "\<not> take s ks ! r < b" by auto
    qed
    then have "idx = r" using r lt d(1) by (simp add: idx_def)
    with r have pos: "sort_Search (int s) ?f = Some (int idx)"
      by (simp add: sort_Search_def)
    show ?thesis
      using nf il lt d(1,2) False
      by (simp add: sz pos sh u1 u2 add.commute)
  qed
qed

lemma ins_take:
  assumes "idx \<le> s" "s < length xs"
  shows "take (Suc s) (take idx xs @ [b] @ drop idx (take s xs) @ drop (Suc s) xs)
         = take idx (take s xs) @ b # drop idx (take s xs)"
    and "drop (Suc s) (take idx xs @ [b] @ drop idx (take s xs) @ drop (Suc s) xs) = drop (Suc s) xs"
    and "length (take idx xs @ [b] @ drop idx (take s xs) @ drop (Suc s) xs) = length xs"
  using assms by (simp_all add: min_def Suc_diff_le)

lemma ins_nth:
  assumes "idx \<le> s" "s < length xs" "j < Suc s"
  shows "(take idx xs @ [b] @ drop idx (take s xs) @ drop (Suc s) xs) ! j
         = (if j < idx then xs ! j else if j = idx then b else xs ! (j - 1))"
proof -
  have l: "length (take idx xs) = idx" using assms by simp
  show ?thesis
  proof (cases "j < idx")
    case True
    then show ?thesis using assms by (simp add: nth_append)
  next
    case False
    show ?thesis
    proof (cases "j = idx")
      case True
      then show ?thesis using assms by (simp add: nth_append)
    next
      case ne: False
      with False have gt: "idx < j" by simp
      define k where "k = j - Suc idx"
      have k: "j = Suc (idx + k)" "idx + k < s"
        using gt assms by (simp_all add: k_def)
      have "(take idx xs @ [b] @ drop idx (take s xs) @ drop (Suc s) xs) ! j
            = (drop idx (take s xs) @ drop (Suc s) xs) ! k"
        using k assms by (simp add: nth_append)
      also have "\<dots> = drop idx (take s xs) ! k"
      proof -
        have "k < length (drop idx (take s xs))" using k assms by simp
        then show ?thesis by (simp only: nth_append if_True)
      qed
      also have "\<dots> = xs ! (idx + k)" using k assms by simp
      finally show ?thesis using k False ne by simp
    qed
  qed
qed

lemma list_all_drop_Suc:
  assumes "list_all P (drop s xs)"
  shows "list_all P (drop (Suc s) xs)"
proof -
  have "drop (Suc s) xs = drop 1 (drop s xs)" by simp
  then have "set (drop (Suc s) xs) \<subseteq> set (drop s xs)"
    by (metis set_drop_subset)
  with assms show ?thesis by (auto simp: list_all_iff)
qed


lemma sorted_wrt_ins:
  fixes K :: "'a::linorder list"
  assumes "sorted_wrt (<) K" "\<forall>k \<in> set (take idx K). k < b" "\<forall>k \<in> set (drop idx K). b < k"
  shows "sorted_wrt (<) (take idx K @ b # drop idx K)"
proof -
  have "sorted_wrt (<) (take idx K @ drop idx K)" using assms(1) by simp
  then show ?thesis
    using assms(2,3) by (auto simp: sorted_wrt_append simp del: append_take_drop_id)
qed

lemma list_all_ins:
  assumes "list_all P K" "P x"
  shows "list_all P (take idx K @ x # drop idx K)"
proof -
  have "list_all P (take idx K @ drop idx K)" using assms(1) by simp
  then show ?thesis
    using assms(2) by (simp del: append_take_drop_id)
qed

lemma set_ins: "set (take idx K @ x # drop idx K) = insert x (set K)"
proof -
  have "set K = set (take idx K @ drop idx K)" by simp
  then show ?thesis by (simp del: append_take_drop_id)
qed

lemma sorted_insert:
  fixes b :: byte and c :: "'v artNode" and cs :: "'v artNode option list"
  assumes ok: "sorted_ok cap m ks cs" and sz: "size_n m = int s" and lt: "s < cap"
    and ty: "ty = Node4 \<or> ty = Node16"
    and il: "idx \<le> s"
    and lo: "\<forall>k \<in> set (take idx (take s ks)). k < b"
    and hi: "\<forall>k \<in> set (drop idx (take s ks)). b < k"
  defines "ks' \<equiv> take idx ks @ [b] @ drop idx (take s ks) @ drop (Suc s) ks"
    and "cs' \<equiv> take idx cs @ [Some c] @ drop idx (take s cs) @ drop (Suc s) cs"
    and "m' \<equiv> m\<lparr>size_n := int (Suc s)\<rparr>"
  shows "sorted_ok cap m' ks' cs'"
    and "lookup (Inner ty m' ks' cs') = (lookup (Inner ty m ks cs))(b := Some c)"
proof -
  note d = sorted_okD [OF ok, unfolded sz nat_int]
  let ?K = "take s ks" and ?C = "take s cs"
  have K': "take (Suc s) ks' = take idx ?K @ b # drop idx ?K"
    and C': "take (Suc s) cs' = take idx ?C @ Some c # drop idx ?C"
    and dK: "drop (Suc s) ks' = drop (Suc s) ks" and dC: "drop (Suc s) cs' = drop (Suc s) cs"
    and len: "length ks' = cap" "length cs' = cap"
    unfolding ks'_def cs'_def
    using ins_take [of idx s ks b] ins_take [of idx s cs "Some c"] il lt d(1,2) by simp_all
  have srt: "sorted_wrt (<) (take idx ?K @ b # drop idx ?K)"
    using d(5) lo hi by (rule sorted_wrt_ins)
  have "list_all (\<lambda>c. c \<noteq> None) ?C" using ok sz by (simp add: sorted_ok_def)
  then have nn: "list_all (\<lambda>c. c \<noteq> None) (take idx ?C @ Some c # drop idx ?C)"
    by (rule list_all_ins) simp
  have z: "list_all (\<lambda>k. k = 0) (drop (Suc s) ks)" "list_all (\<lambda>c. c = None) (drop (Suc s) cs)"
    using ok sz by (auto simp: sorted_ok_def intro: list_all_drop_Suc)
  have sz': "size_n m' = int (Suc s)" by (simp add: m'_def)
  have "nat (size_n m') = Suc s" unfolding sz' by simp
  then show ok': "sorted_ok cap m' ks' cs'"
    unfolding sorted_ok_def using len lt srt nn z
    by (simp only: K' C' dK dC sz') simp
  note d' = sorted_okD [OF ok', unfolded sz' nat_int]
  have nthK: "ks' ! j = (if j < idx then ks ! j else if j = idx then b else ks ! (j - 1))"
    and nthC: "cs' ! j = (if j < idx then cs ! j else if j = idx then Some c else cs ! (j - 1))"
    if "j < Suc s" for j
    unfolding ks'_def cs'_def
    using ins_nth [of idx s ks j b] ins_nth [of idx s cs j "Some c"] that il lt d(1,2)
    by simp_all
  show "lookup (Inner ty m' ks' cs') = (lookup (Inner ty m ks cs))(b := Some c)"
  proof
    fix x
    show "lookup (Inner ty m' ks' cs') x = ((lookup (Inner ty m ks cs))(b := Some c)) x"
    proof (cases "x = b")
      case True
      have "lookup (Inner ty m' ks' cs') (ks' ! idx) = cs' ! idx"
        using sorted_find_in(3) [OF ok' ty, of idx] il by (simp add: sz' del: of_nat_Suc)
      with True show ?thesis using nthK [of idx] nthC [of idx] il by simp
    next
      case False
      show ?thesis
      proof (cases "x \<in> set ?K")
        case True
        then obtain i where i: "i < s" "ks ! i = x"
          using d(1) lt by (auto simp: in_set_conv_nth)
        define j where "j = (if i < idx then i else Suc i)"
        have j: "j < Suc s" "ks' ! j = x" "cs' ! j = cs ! i"
          using i il nthK [of j] nthC [of j] by (auto simp: j_def)
        have "lookup (Inner ty m' ks' cs') (ks' ! j) = cs' ! j"
          using sorted_find_in(3) [OF ok' ty, of j] j by (simp add: sz' del: of_nat_Suc)
        moreover have "lookup (Inner ty m ks cs) (ks ! i) = cs ! i"
          using sorted_find_in(3) [OF ok ty, of i] i by (simp add: sz)
        ultimately show ?thesis using False i j by simp
      next
        case nin: False
        have "x \<notin> set (take (Suc s) ks')"
          using nin False unfolding K' set_ins by simp
        then have "lookup (Inner ty m' ks' cs') x = None"
          using sorted_find_out(2) [OF ok' ty, of x] by (simp add: sz' del: of_nat_Suc)
        moreover have "lookup (Inner ty m ks cs) x = None"
          using sorted_find_out(2) [OF ok ty, of x] nin by (simp add: sz)
        ultimately show ?thesis using False by simp
      qed
    qed
  qed
qed

lemma sorted_lookup_None:
  assumes ok: "sorted_ok cap m ks cs" and ty: "ty = Node4 \<or> ty = Node16"
  shows "lookup (Inner ty m ks cs) b = None \<longleftrightarrow> b \<notin> set (take (nat (size_n m)) ks)"
proof
  assume n: "lookup (Inner ty m ks cs) b = None"
  show "b \<notin> set (take (nat (size_n m)) ks)"
  proof
    assume "b \<in> set (take (nat (size_n m)) ks)"
    then obtain i where i: "i < nat (size_n m)" "ks ! i = b"
      using sorted_okD(1,4) [OF ok] by (auto simp: in_set_conv_nth)
    with sorted_find_in(3) [OF ok ty, of i] sorted_okD(7) [OF ok, of i] n
    show False by simp
  qed
next
  assume "b \<notin> set (take (nat (size_n m)) ks)"
  then show "lookup (Inner ty m ks cs) b = None"
    by (rule sorted_find_out(2) [OF ok ty])
qed

lemma childAt_sorted:
  assumes ok: "sorted_ok cap m ks cs" and ty: "ty = Node4 \<or> ty = Node16"
  shows "childAt (Inner ty m ks cs) b = Some (lookup (Inner ty m ks cs) b)"
proof (cases "b \<in> set (take (nat (size_n m)) ks)")
  case True
  then obtain i where i: "i < nat (size_n m)" "ks ! i = b"
    using sorted_okD(1,4) [OF ok] by (auto simp: in_set_conv_nth)
  with sorted_find_in(2,3) [OF ok ty, of i] show ?thesis by simp
next
  case False
  with sorted_find_out [OF ok ty, of b] show ?thesis by simp
qed

lemma addChild_sorted_absent:
  fixes b :: byte and c :: "'v artNode" and cs :: "'v artNode option list"
  assumes ok: "sorted_ok cap m ks cs" and ty: "ty = Node4 \<and> cap = 4 \<or> ty = Node16 \<and> cap = 16"
    and nf: "size_n m < int cap" and ab: "lookup (Inner ty m ks cs) b = None"
  shows "\<exists>ks' cs'. addChild (Inner ty m ks cs) b c
                      = Some (Inner ty (m\<lparr>size_n := size_n m + 1\<rparr>) ks' cs')
           \<and> sorted_ok cap (m\<lparr>size_n := size_n m + 1\<rparr>) ks' cs'
           \<and> lookup (Inner ty (m\<lparr>size_n := size_n m + 1\<rparr>) ks' cs')
               = (lookup (Inner ty m ks cs))(b := Some c)"
proof -
  note d = sorted_okD [OF ok]
  define s where "s = nat (size_n m)"
  have sz: "size_n m = int s" using d(3) by (simp add: s_def)
  have lt: "s < cap" using nf sz by simp
  have ty': "ty = Node4 \<or> ty = Node16" using ty by auto
  have nin: "b \<notin> set (take s ks)"
    using ab sorted_lookup_None [OF ok ty'] by (simp add: s_def)
  have srt: "sorted_wrt (<) (take s ks)" using d(5) by (simp add: s_def)
  have e: "size_n m + 1 = int (Suc s)" using sz by simp
  from ty show ?thesis
  proof
    assume t: "ty = Node4 \<and> cap = 4"
    define idx where "idx = length (takeWhile (\<lambda>k. \<not> b < k) (take s ks))"
    have sp: "idx \<le> length (take s ks)" "\<forall>k \<in> set (take idx (take s ks)). \<not> b < k"
      "\<forall>k \<in> set (drop idx (take s ks)). \<not> \<not> b < k"
      unfolding idx_def by (rule takeWhile_split [OF srt]; auto)+
    have il: "idx \<le> s" using sp(1) by simp
    have lo: "\<forall>k \<in> set (take idx (take s ks)). k < b"
    proof
      fix k assume k: "k \<in> set (take idx (take s ks))"
      then have "k \<in> set (take s ks)" by (rule in_set_takeD)
      with nin have "k \<noteq> b" by auto
      with sp(2) k show "k < b" by auto
    qed
    have hi: "\<forall>k \<in> set (drop idx (take s ks)). b < k" using sp(3) by simp
    have a: "addChild (Inner ty m ks cs) b c =
           Some (Inner ty (m\<lparr>size_n := int (Suc s)\<rparr>)
                  (take idx ks @ [b] @ drop idx (take s ks) @ drop (Suc s) ks)
                  (take idx cs @ [Some c] @ drop idx (take s cs) @ drop (Suc s) cs))"
      using addChild_node4 [of m ks cs s b c] ok sz lt t by (simp add: idx_def)
    from sorted_insert [OF ok sz lt ty' il lo hi, of c] a
    show ?thesis unfolding e by blast
  next
    assume t: "ty = Node16 \<and> cap = 16"
    define idx where "idx = length (takeWhile (\<lambda>k. k < b) (take s ks))"
    have sp: "idx \<le> length (take s ks)" "\<forall>k \<in> set (take idx (take s ks)). k < b"
      "\<forall>k \<in> set (drop idx (take s ks)). \<not> k < b"
      unfolding idx_def by (rule takeWhile_split [OF srt]; auto)+
    have il: "idx \<le> s" using sp(1) by simp
    have hi: "\<forall>k \<in> set (drop idx (take s ks)). b < k"
    proof
      fix k assume k: "k \<in> set (drop idx (take s ks))"
      then have "k \<in> set (take s ks)" by (rule in_set_dropD)
      with nin have "k \<noteq> b" by auto
      with sp(3) k show "b < k" by auto
    qed
    have a: "addChild (Inner ty m ks cs) b c =
           Some (Inner ty (m\<lparr>size_n := int (Suc s)\<rparr>)
                  (take idx ks @ [b] @ drop idx (take s ks) @ drop (Suc s) ks)
                  (take idx cs @ [Some c] @ drop idx (take s cs) @ drop (Suc s) cs))"
      using addChild_node16 [of m ks cs s b c] ok sz lt t by (simp add: idx_def)
    from sorted_insert [OF ok sz lt ty' il sp(2) hi, of c] a
    show ?thesis unfolding e by blast
  qed
qed

subsection \<open>node48\<close>

lemma distinct_filter_nth:
  "distinct (filter P xs) \<longleftrightarrow>
     (\<forall>i<length xs. \<forall>j<length xs. P (xs ! i) \<and> xs ! i = xs ! j \<longrightarrow> i = j)"
proof (induction xs)
  case Nil
  then show ?case by simp
next
  case (Cons x xs)
  have "(\<forall>i<length (x # xs). \<forall>j<length (x # xs). P ((x # xs) ! i) \<and> (x # xs) ! i = (x # xs) ! j \<longrightarrow> i = j)
        \<longleftrightarrow> (P x \<longrightarrow> x \<notin> set xs)
            \<and> (\<forall>i<length xs. \<forall>j<length xs. P (xs ! i) \<and> xs ! i = xs ! j \<longrightarrow> i = j)"
    (is "?L \<longleftrightarrow> ?A \<and> ?B")
  proof
    assume L: ?L
    have ?A
    proof (intro impI notI)
      assume "P x" "x \<in> set xs"
      then obtain j where "j < length xs" "xs ! j = x" by (auto simp: in_set_conv_nth)
      then have "0 < length (x # xs)" "Suc j < length (x # xs)"
        "P ((x # xs) ! 0) \<and> (x # xs) ! 0 = (x # xs) ! Suc j"
        using \<open>P x\<close> by simp_all
      with L have "0 = Suc j" by blast
      then show False by simp
    qed
    moreover have ?B
    proof (intro allI impI)
      fix i j assume "i < length xs" "j < length xs" "P (xs ! i) \<and> xs ! i = xs ! j"
      then have "Suc i < length (x # xs)" "Suc j < length (x # xs)"
        "P ((x # xs) ! Suc i) \<and> (x # xs) ! Suc i = (x # xs) ! Suc j"
        by auto
      with L have "Suc i = Suc j" by blast
      then show "i = j" by simp
    qed
    ultimately show "?A \<and> ?B" ..
  next
    assume AB: "?A \<and> ?B"
    show ?L
    proof (intro allI impI)
      fix i j assume h: "i < length (x # xs)" "j < length (x # xs)"
        "P ((x # xs) ! i) \<and> (x # xs) ! i = (x # xs) ! j"
      show "i = j"
      proof (cases i)
        case 0
        show ?thesis
        proof (cases j)
          case 0
          with \<open>i = 0\<close> show ?thesis by simp
        next
          case (Suc j')
          with 0 h AB show ?thesis by (auto simp: in_set_conv_nth)
        qed
      next
        case (Suc i')
        show ?thesis
        proof (cases j)
          case 0
          with Suc h AB show ?thesis by (auto simp: in_set_conv_nth)
        next
          case (Suc j')
          with \<open>i = Suc i'\<close> h AB show ?thesis by auto
        qed
      qed
    qed
  qed
  with Cons show ?case by auto
qed

lemma byte_le_48: "(k :: byte) \<le> 48 \<longleftrightarrow> unat k < 49"
  by (auto simp: word_le_nat_alt)

lemma of_nat_byte_eq_iff:
  "i < 256 \<Longrightarrow> j < 256 \<Longrightarrow> (of_nat i :: byte) = of_nat j \<longleftrightarrow> i = j"
  by (metis unat_of_nat_byte)

lemma byte_eq_of_nat_iff: "j < 256 \<Longrightarrow> (k :: byte) = of_nat j \<longleftrightarrow> unat k = j"
  using word_unat_eq_iff [of k "of_nat j"] by simp

lemma unat_byte_eq_0 [simp]: "unat (k :: byte) = 0 \<longleftrightarrow> k = 0"
  by (simp add: unat_0_iff)

text \<open>The invariant of a node48 in terms of indices.\<close>

lemma node48_ok_iff:
  "node48_ok m ks cs \<longleftrightarrow>
     length ks = 256 \<and> length cs = 49
     \<and> (\<forall>i<256. unat (ks ! i) < 49)
     \<and> (\<forall>i<256. \<forall>j<256. ks ! i \<noteq> 0 \<and> ks ! i = ks ! j \<longrightarrow> i = j)
     \<and> (\<forall>j<49. cs ! j \<noteq> None \<longleftrightarrow> j \<noteq> 0 \<and> (\<exists>i<256. unat (ks ! i) = j))
     \<and> size_n m = int (card {i. i < 256 \<and> ks ! i \<noteq> 0})"
proof -
  have a: "list_all (\<lambda>k. k \<le> 48) ks \<longleftrightarrow> (\<forall>i<256. unat (ks ! i) < 49)" if "length ks = 256"
    using that by (simp add: list_all_length byte_le_48)
  have b: "distinct (filter (\<lambda>k. k \<noteq> 0) ks)
         \<longleftrightarrow> (\<forall>i<256. \<forall>j<256. ks ! i \<noteq> 0 \<and> ks ! i = ks ! j \<longrightarrow> i = j)" if "length ks = 256"
    using that by (simp add: distinct_filter_nth)
  have c: "list_all (\<lambda>j. (cs ! j \<noteq> None) = (j \<noteq> 0 \<and> of_nat j \<in> set ks)) [0..<49]
         \<longleftrightarrow> (\<forall>j<49. cs ! j \<noteq> None \<longleftrightarrow> j \<noteq> 0 \<and> (\<exists>i<256. unat (ks ! i) = j))" if "length ks = 256"
  proof -
    have "of_nat j \<in> set ks \<longleftrightarrow> (\<exists>i<256. unat (ks ! i) = j)" if "j < 49" for j
      using \<open>length ks = 256\<close> that by (auto simp: in_set_conv_nth byte_eq_of_nat_iff)
    then show ?thesis by (auto simp: list_all_iff)
  qed
  have d: "length (filter (\<lambda>k. k \<noteq> 0) ks) = card {i. i < 256 \<and> ks ! i \<noteq> 0}" if "length ks = 256"
    using that by (simp add: length_filter_conv_card)
  show ?thesis
    unfolding node48_ok_def using a b c d by auto
qed

lemma uint_less_int_iff [simp]: "uint (b :: byte) < int n \<longleftrightarrow> unat b < n"
  by (simp only: uint_nat of_nat_less_iff)

lemma uint_less_numeral_iff [simp]: "uint (b :: byte) < numeral n \<longleftrightarrow> unat b < numeral n"
  using uint_less_int_iff [of b "numeral n"] by simp

lemma at_uint [simp]:
  "at xs (uint (b :: byte)) = (if unat b < length xs then Some (xs ! unat b) else None)"
  unfolding uint_nat by (rule at_int)

lemma store_uint [simp]:
  "store xs (uint (b :: byte)) v = (if unat b < length xs then Some (xs[unat b := v]) else None)"
  unfolding uint_nat by (rule store_int)

lemma at_int_of [simp]:
  "at xs (int_of b) = (if unat b < length xs then Some (xs ! unat b) else None)"
  by (simp add: int_of_def)

lemma store_int_of [simp]:
  "store xs (int_of b) v = (if unat b < length xs then Some (xs[unat b := v]) else None)"
  by (simp add: int_of_def)

lemma int_of_eq_0 [simp]: "int_of b = 0 \<longleftrightarrow> b = 0"
  by (simp add: int_of_def uint_0_iff)

lemma int_of_nonneg [simp]: "0 \<le> int_of b" "\<not> int_of b < 0"
  by (simp_all add: int_of_def)

lemma int_of_less_iff [simp]: "int_of b < int n \<longleftrightarrow> unat b < n"
  "int_of b < numeral k \<longleftrightarrow> unat b < numeral k"
  by (simp_all add: int_of_def)

lemma lookup48:
  assumes ok: "node48_ok m ks cs"
  shows "childAt (Inner Node48 m ks cs) b
           = Some (if ks ! unat b = 0 then None else cs ! unat (ks ! unat b))"
    and "lookup (Inner Node48 m ks cs) b
           = (if ks ! unat b = 0 then None else cs ! unat (ks ! unat b))"
proof -
  from ok have l: "length ks = 256" "length cs = 49" "unat (ks ! unat b) < 49"
    by (auto simp: node48_ok_iff)
  then show c: "childAt (Inner Node48 m ks cs) b
           = Some (if ks ! unat b = 0 then None else cs ! unat (ks ! unat b))"
    by (auto simp: childAt_def)
  then show "lookup (Inner Node48 m ks cs) b
           = (if ks ! unat b = 0 then None else cs ! unat (ks ! unat b))"
    by (simp add: lookup_def)
qed

lemma first_free_spec:
  "start \<le> j \<Longrightarrow> j < length cs \<Longrightarrow> cs ! j = None \<Longrightarrow>
   (\<forall>i. start \<le> i \<and> i < j \<longrightarrow> cs ! i \<noteq> None) \<Longrightarrow>
   first_free cs (int start) = Some (int j)"
proof (induction "j - start" arbitrary: start)
  case 0
  then have "start = j" by simp
  with 0 show ?case by (subst first_free.simps) simp
next
  case (Suc d)
  then have lt: "start < j" by simp
  with Suc.prems have "cs ! start \<noteq> None" by simp
  then have "first_free cs (int start) = first_free cs (int (Suc start))"
    using lt Suc.prems by (subst first_free.simps) (auto simp: add.commute)
  also have "\<dots> = Some (int j)"
    using Suc.hyps(1) [of "Suc start"] Suc.hyps(2) Suc.prems lt by auto
  finally show ?case .
qed

lemma node48_slots:
  assumes ok: "node48_ok m ks cs"
  shows "card {i. i < 256 \<and> ks ! i \<noteq> 0} = card {j. j < 49 \<and> cs ! j \<noteq> None}"
proof -
  from ok have h: "\<forall>i<256. unat (ks ! i) < 49"
    "\<forall>i<256. \<forall>j<256. ks ! i \<noteq> 0 \<and> ks ! i = ks ! j \<longrightarrow> i = j"
    "\<forall>j<49. cs ! j \<noteq> None \<longleftrightarrow> j \<noteq> 0 \<and> (\<exists>i<256. unat (ks ! i) = j)"
    by (auto simp: node48_ok_iff)
  let ?S = "{i. i < 256 \<and> ks ! i \<noteq> 0}" and ?T = "{j. j < 49 \<and> cs ! j \<noteq> None}"
  have "bij_betw (\<lambda>i. unat (ks ! i)) ?S ?T"
    unfolding bij_betw_def
  proof
    show "inj_on (\<lambda>i. unat (ks ! i)) ?S"
    proof (rule inj_onI)
      fix i j assume a: "i \<in> ?S" "j \<in> ?S" "unat (ks ! i) = unat (ks ! j)"
      then have "ks ! i = ks ! j" using word_unat_eq_iff by blast
      with a h(2) show "i = j" by blast
    qed
    show "(\<lambda>i. unat (ks ! i)) ` ?S = ?T"
    proof (intro set_eqI iffI)
      fix j assume "j \<in> (\<lambda>i. unat (ks ! i)) ` ?S"
      then obtain i where i: "i < 256" "ks ! i \<noteq> 0" "j = unat (ks ! i)" by auto
      with h(1) have "j < 49" "j \<noteq> 0" by auto
      with h(3) i show "j \<in> ?T" by auto
    next
      fix j assume "j \<in> ?T"
      with h(3) obtain i where "i < 256" "unat (ks ! i) = j" "j \<noteq> 0" by auto
      then show "j \<in> (\<lambda>i. unat (ks ! i)) ` ?S" by force
    qed
  qed
  then show ?thesis by (rule bij_betw_same_card)
qed

lemma node48_free_slot:
  assumes ok: "node48_ok m ks cs" and nf: "size_n m < 48"
  shows "\<exists>j. 1 \<le> j \<and> j < 49 \<and> cs ! j = None \<and> (\<forall>i. 1 \<le> i \<and> i < j \<longrightarrow> cs ! i \<noteq> None)"
proof -
  from ok have sz: "size_n m = int (card {i. i < 256 \<and> ks ! i \<noteq> 0})"
    by (simp add: node48_ok_iff)
  let ?T = "{j. j < 49 \<and> cs ! j \<noteq> None}"
  have c: "card ?T < 48" using sz nf node48_slots [OF ok] by simp
  have "\<exists>j. 1 \<le> j \<and> j < 49 \<and> cs ! j = None"
  proof (rule ccontr)
    assume "\<not> ?thesis"
    then have "{1..<49} \<subseteq> ?T" by auto
    then have "card {1..<49::nat} \<le> card ?T" by (intro card_mono) auto
    with c show False by simp
  qed
  then obtain j where j: "1 \<le> j \<and> j < 49 \<and> cs ! j = None" by blast
  define j0 where "j0 = (LEAST j. 1 \<le> j \<and> j < 49 \<and> cs ! j = None)"
  have a: "1 \<le> j0 \<and> j0 < 49 \<and> cs ! j0 = None"
    unfolding j0_def using j by (rule LeastI)
  have "cs ! i \<noteq> None" if "1 \<le> i" "i < j0" for i
  proof
    assume "cs ! i = None"
    with that a have "1 \<le> i \<and> i < 49 \<and> cs ! i = None" by simp
    then have "j0 \<le> i" unfolding j0_def by (rule Least_le)
    with that show False by simp
  qed
  with a show ?thesis by blast
qed

lemma node48_add:
  fixes b :: byte and c :: "'v artNode" and cs :: "'v artNode option list"
  assumes ok: "node48_ok m ks cs" and ab: "ks ! unat b = 0"
    and j: "1 \<le> j" "j < 49" "cs ! j = None"
  defines "ks' \<equiv> ks[unat b := of_nat j]" and "cs' \<equiv> cs[j := Some c]"
    and "m' \<equiv> m\<lparr>size_n := size_n m + 1\<rparr>"
  shows "node48_ok m' ks' cs'"
    and "lookup (Inner Node48 m' ks' cs') = (lookup (Inner Node48 m ks cs))(b := Some c)"
proof -
  from ok have h: "length ks = 256" "length cs = 49" "\<forall>i<256. unat (ks ! i) < 49"
    "\<forall>i<256. \<forall>j<256. ks ! i \<noteq> 0 \<and> ks ! i = ks ! j \<longrightarrow> i = j"
    "\<forall>j<49. cs ! j \<noteq> None \<longleftrightarrow> j \<noteq> 0 \<and> (\<exists>i<256. unat (ks ! i) = j)"
    "size_n m = int (card {i. i < 256 \<and> ks ! i \<noteq> 0})"
    by (auto simp: node48_ok_iff)
  let ?u = "unat b"
  have u: "?u < 256" by simp
  have uj: "unat (of_nat j :: byte) = j" using j by simp
  have j0: "(of_nat j :: byte) \<noteq> 0" using uj j by (metis not_one_le_zero unat_0)
  have nth: "ks' ! i = (if i = ?u then of_nat j else ks ! i)" if "i < 256" for i
    using that h(1) by (simp add: ks'_def)
  have nj: "unat (ks ! i) \<noteq> j" if "i < 256" for i
    using h(5) j that by (metis less_numeral_extra(3) not_one_le_zero)
  have l: "length ks' = 256" "length cs' = 49" using h by (simp_all add: ks'_def cs'_def)
  have a: "\<forall>i<256. unat (ks' ! i) < 49"
    using h(3) nth uj j by auto
  have b': "\<forall>i<256. \<forall>i'<256. ks' ! i \<noteq> 0 \<and> ks' ! i = ks' ! i' \<longrightarrow> i = i'"
  proof (intro allI impI)
    fix i i' assume i: "i < 256" "i' < 256" "ks' ! i \<noteq> 0 \<and> ks' ! i = ks' ! i'"
    show "i = i'"
    proof (cases "i = ?u")
      case True
      show ?thesis
      proof (rule ccontr)
        assume "i \<noteq> i'"
        with True i nth have "ks ! i' = of_nat j" by auto
        with uj nj [of i'] i show False by simp
      qed
    next
      case False
      show ?thesis
      proof (cases "i' = ?u")
        case True
        with False i nth have "ks ! i = of_nat j" by auto
        with uj nj [of i] i show ?thesis by simp
      next
        case f: False
        with False i nth h(4) show ?thesis by auto
      qed
    qed
  qed
  have c': "\<forall>j'<49. cs' ! j' \<noteq> None \<longleftrightarrow> j' \<noteq> 0 \<and> (\<exists>i<256. unat (ks' ! i) = j')"
  proof (intro allI impI)
    fix j' assume j': "j' < (49::nat)"
    show "cs' ! j' \<noteq> None \<longleftrightarrow> j' \<noteq> 0 \<and> (\<exists>i<256. unat (ks' ! i) = j')"
    proof (cases "j' = j")
      case True
      have "unat (ks' ! ?u) = j" using nth [of ?u] uj by simp
      then have "\<exists>i<256. unat (ks' ! i) = j" using u by blast
      moreover have "cs' ! j \<noteq> None" using j h(2) by (simp add: cs'_def)
      ultimately show ?thesis using True j by simp
    next
      case False
      have "(\<exists>i<256. unat (ks' ! i) = j') \<longleftrightarrow> (\<exists>i<256. unat (ks ! i) = j')" if "j' \<noteq> 0"
      proof
        assume "\<exists>i<256. unat (ks' ! i) = j'"
        then obtain i where i: "i < 256" "unat (ks' ! i) = j'" by blast
        with False uj nth [of i] have "i \<noteq> ?u" by auto
        with i nth [of i] show "\<exists>i<256. unat (ks ! i) = j'" by auto
      next
        assume "\<exists>i<256. unat (ks ! i) = j'"
        then obtain i where i: "i < 256" "unat (ks ! i) = j'" by blast
        with that ab have "i \<noteq> ?u" by auto
        with i nth [of i] show "\<exists>i<256. unat (ks' ! i) = j'" by auto
      qed
      with False j' h(5) show ?thesis by (auto simp: cs'_def)
    qed
  qed
  have "{i. i < 256 \<and> ks' ! i \<noteq> 0} = insert ?u {i. i < 256 \<and> ks ! i \<noteq> 0}"
    using nth j0 ab by (auto split: if_splits)
  moreover have "?u \<notin> {i. i < 256 \<and> ks ! i \<noteq> 0}" using ab by simp
  moreover have "finite {i. i < 256 \<and> ks ! i \<noteq> 0}" by simp
  ultimately have "card {i. i < 256 \<and> ks' ! i \<noteq> 0} = Suc (card {i. i < 256 \<and> ks ! i \<noteq> 0})"
    using card_insert_disjoint [of "{i. i < 256 \<and> ks ! i \<noteq> 0}" ?u] by metis
  then have d': "size_n m' = int (card {i. i < 256 \<and> ks' ! i \<noteq> 0})"
    using h(6) by (simp add: m'_def)
  show ok': "node48_ok m' ks' cs'"
    unfolding node48_ok_iff using l a b' c' d' by blast
  show "lookup (Inner Node48 m' ks' cs') = (lookup (Inner Node48 m ks cs))(b := Some c)"
  proof
    fix x :: byte
    show "lookup (Inner Node48 m' ks' cs') x = ((lookup (Inner Node48 m ks cs))(b := Some c)) x"
    proof (cases "x = b")
      case True
      then show ?thesis
        using lookup48(2) [OF ok', of b] nth [of ?u] uj j0 j h(2) by (simp add: cs'_def)
    next
      case False
      then have ne: "unat x \<noteq> ?u" using word_unat_eq_iff by blast
      have kx: "ks' ! unat x = ks ! unat x" using nth [of "unat x"] ne by simp
      have "cs' ! unat (ks ! unat x) = cs ! unat (ks ! unat x)"
        using nj [of "unat x"] by (simp add: cs'_def)
      then show ?thesis
        using lookup48(2) [OF ok', of x] lookup48(2) [OF ok, of x] False kx by simp
    qed
  qed
qed

lemma addChild48_absent:
  fixes b :: byte and c :: "'v artNode" and cs :: "'v artNode option list"
  assumes ok: "node48_ok m ks cs" and nf: "size_n m < 48"
    and ab: "lookup (Inner Node48 m ks cs) b = None"
  shows "\<exists>ks' cs'. addChild (Inner Node48 m ks cs) b c
                      = Some (Inner Node48 (m\<lparr>size_n := size_n m + 1\<rparr>) ks' cs')
           \<and> node48_ok (m\<lparr>size_n := size_n m + 1\<rparr>) ks' cs'
           \<and> lookup (Inner Node48 (m\<lparr>size_n := size_n m + 1\<rparr>) ks' cs')
               = (lookup (Inner Node48 m ks cs))(b := Some c)"
proof -
  from ok have h: "length ks = 256" "length cs = 49"
    "\<forall>i<256. ks ! i \<noteq> 0 \<longrightarrow> cs ! unat (ks ! i) \<noteq> None"
    by (auto simp: node48_ok_iff)
  have z: "ks ! unat b = 0"
  proof (rule ccontr)
    assume "ks ! unat b \<noteq> 0"
    with ab lookup48(2) [OF ok, of b] h(3) show False by simp
  qed
  from node48_free_slot [OF ok nf]
  obtain j where j: "1 \<le> j" "j < 49" "cs ! j = None" "\<forall>i. 1 \<le> i \<and> i < j \<longrightarrow> cs ! i \<noteq> None"
    by blast
  have ff: "first_free cs 1 = Some (int j)"
    using first_free_spec [of 1 j cs] j h(2) by simp
  have nf': "\<not> isFull Node48 m" using nf by (simp add: isFull_def node48Max_def)
  have bj: "byte_of (int j) = of_nat j" by (simp add: byte_of_def)
  have "addChild (Inner Node48 m ks cs) b c
          = Some (Inner Node48 (m\<lparr>size_n := size_n m + 1\<rparr>) (ks[unat b := of_nat j]) (cs[j := Some c]))"
    using nf' ff j h(1,2) by (simp add: bj)
  with node48_add [OF ok z j(1,2,3), of c] show ?thesis by blast
qed

subsection \<open>node256\<close>

lemma card_less_missing:
  fixes S :: "nat set"
  assumes "S \<subseteq> {0..<n}" "x < n" "x \<notin> S"
  shows "card S < n"
proof -
  from assms have "S \<subseteq> {0..<n} - {x}" by auto
  then have "card S \<le> card ({0..<n} - {x})" by (intro card_mono) auto
  also have "\<dots> = n - 1" using assms(2) by (subst card_Diff_singleton) auto
  finally show ?thesis using assms(2) by simp
qed

lemma node256_ok_iff:
  "node256_ok m ks cs \<longleftrightarrow>
     ks = [] \<and> length cs = 256 \<and> size_n m = int (card {i. i < 256 \<and> cs ! i \<noteq> None})"
  unfolding node256_ok_def by (auto simp: length_filter_conv_card)

lemma lookup256:
  assumes "length cs = 256"
  shows "childAt (Inner Node256 m ks cs) b = Some (cs ! unat b)"
    and "lookup (Inner Node256 m ks cs) b = cs ! unat b"
proof -
  show "childAt (Inner Node256 m ks cs) b = Some (cs ! unat b)"
    using assms by (auto simp: childAt_def)
  then show "lookup (Inner Node256 m ks cs) b = cs ! unat b"
    by (simp add: lookup_def)
qed

lemma addChild256_absent:
  fixes b :: byte and c :: "'v artNode" and cs :: "'v artNode option list"
  assumes ok: "node256_ok m ks cs" and ab: "lookup (Inner Node256 m ks cs) b = None"
  shows "addChild (Inner Node256 m ks cs) b c
           = Some (Inner Node256 (m\<lparr>size_n := size_n m + 1\<rparr>) ks (cs[unat b := Some c]))"
    and "node256_ok (m\<lparr>size_n := size_n m + 1\<rparr>) ks (cs[unat b := Some c])"
    and "lookup (Inner Node256 (m\<lparr>size_n := size_n m + 1\<rparr>) ks (cs[unat b := Some c]))
           = (lookup (Inner Node256 m ks cs))(b := Some c)"
proof -
  from ok have h: "ks = []" "length cs = 256"
    "size_n m = int (card {i. i < 256 \<and> cs ! i \<noteq> None})"
    by (auto simp: node256_ok_iff)
  let ?S = "{i. i < 256 \<and> cs ! i \<noteq> None}"
  have z: "cs ! unat b = None" using ab lookup256(2) [OF h(2)] by simp
  have fin: "finite ?S" by simp
  have "?S \<subseteq> {0..<256}" by auto
  moreover have "unat b < 256" by simp
  moreover have "unat b \<notin> ?S" using z by simp
  ultimately have "card ?S < 256" by (rule card_less_missing)
  then have nf: "\<not> isFull Node256 m" using h(3) by (simp add: isFull_def node256Max_def)
  show "addChild (Inner Node256 m ks cs) b c
           = Some (Inner Node256 (m\<lparr>size_n := size_n m + 1\<rparr>) ks (cs[unat b := Some c]))"
    using nf h(2) by simp
  have "{i. i < 256 \<and> cs[unat b := Some c] ! i \<noteq> None} = insert (unat b) ?S"
    using h(2) by (auto simp: nth_list_update)
  moreover have "unat b \<notin> ?S" using z by simp
  ultimately have "card {i. i < 256 \<and> cs[unat b := Some c] ! i \<noteq> None} = Suc (card ?S)"
    using card_insert_disjoint [OF fin, of "unat b"] by metis
  then show "node256_ok (m\<lparr>size_n := size_n m + 1\<rparr>) ks (cs[unat b := Some c])"
    unfolding node256_ok_iff using h by simp
  show "lookup (Inner Node256 (m\<lparr>size_n := size_n m + 1\<rparr>) ks (cs[unat b := Some c]))
           = (lookup (Inner Node256 m ks cs))(b := Some c)"
  proof
    fix x :: byte
    show "lookup (Inner Node256 (m\<lparr>size_n := size_n m + 1\<rparr>) ks (cs[unat b := Some c])) x
           = ((lookup (Inner Node256 m ks cs))(b := Some c)) x"
    proof (cases "x = b")
      case True
      then show ?thesis using h(2) by (simp add: lookup256)
    next
      case False
      have "unat b \<noteq> unat x"
      proof
        assume "unat b = unat x"
        then have "b = x" by (rule word_unat_eq_iff [THEN iffD2])
        with False show False by simp
      qed
      then have "cs[unat b := Some c] ! unat x = cs ! unat x" by simp
      moreover have "length (cs[unat b := Some c]) = 256" using h(2) by simp
      ultimately show ?thesis using False by (simp add: lookup256 [OF h(2)] lookup256)
    qed
  qed
qed


subsection \<open>Adding a child to a node at capacity\<close>

lemma least_free:
  assumes "start \<le> j" "j < length cs" "cs ! j = None"
  shows "\<exists>j0. start \<le> j0 \<and> j0 \<le> j \<and> first_free cs (int start) = Some (int j0) \<and> cs ! j0 = None"
proof -
  define j0 where "j0 = (LEAST j. start \<le> j \<and> cs ! j = None)"
  have a: "start \<le> j0 \<and> cs ! j0 = None"
    unfolding j0_def using assms(1,3) by (intro LeastI [of "\<lambda>j. start \<le> j \<and> cs ! j = None" j]) simp
  have le: "j0 \<le> j" unfolding j0_def using assms(1,3) by (intro Least_le) simp
  have "cs ! i \<noteq> None" if "start \<le> i" "i < j0" for i
  proof
    assume "cs ! i = None"
    with that have "start \<le> i \<and> cs ! i = None" by simp
    then have "j0 \<le> i" unfolding j0_def by (rule Least_le)
    with that show False by simp
  qed
  then have "first_free cs (int start) = Some (int j0)"
    using first_free_spec [of start j0 cs] a le assms(2) by simp
  with a le show ?thesis by blast
qed

lemma addChild_node16_gen:
  fixes b :: byte
  assumes l: "length ks = 16" "length cs = 16" and srt: "sorted (take s ks)"
    and sz: "size_n m = int s" and lt: "s < 16"
  defines "idx \<equiv> length (takeWhile (\<lambda>k. k < b) (take s ks))"
  shows "addChild (Inner Node16 m ks cs) b c =
           Some (Inner Node16 (m\<lparr>size_n := int (Suc s)\<rparr>)
                  (take idx ks @ [b] @ drop idx (take s ks) @ drop (Suc s) ks)
                  (take idx cs @ [Some c] @ drop idx (take s cs) @ drop (Suc s) cs))"
proof -
  have il: "idx \<le> s" unfolding idx_def using l lt
    by (metis length_take length_takeWhile_le min.absorb2 less_imp_le_nat)
  have nf: "\<not> isFull Node16 m" using sz lt by (simp add: isFull_def node16Max_def)
  have sh: "shift_right ks cs (int s) (int idx) =
     Some (take (Suc idx) ks @ drop idx (take s ks) @ drop (Suc s) ks,
           take (Suc idx) cs @ drop idx (take s cs) @ drop (Suc s) cs)"
    using shift_right_spec [of idx s ks cs] il lt l by simp
  have u1: "(take (Suc idx) ks @ drop idx (take s ks) @ drop (Suc s) ks)[idx := b]
            = take idx ks @ [b] @ drop idx (take s ks) @ drop (Suc s) ks"
    using il lt l by (simp add: list_update_append take_Suc_conv_app_nth)
  have u2: "(take (Suc idx) cs @ drop idx (take s cs) @ drop (Suc s) cs)[idx := Some c]
            = take idx cs @ [Some c] @ drop idx (take s cs) @ drop (Suc s) cs"
    using il lt l by (simp add: list_update_append take_Suc_conv_app_nth)
  show ?thesis
  proof (cases "s = 0")
    case True
    then have i0: "idx = 0" using il by simp
    have sr: "shift_right ks cs 0 0 = Some (ks, cs)"
      by (subst shift_right.simps) simp
    have "ks[0 := b] = b # drop (Suc 0) ks" "cs[0 := Some c] = Some c # drop (Suc 0) cs"
      using l by (cases ks; cases cs; simp)+
    moreover have "ks \<noteq> []" "cs \<noteq> []" using l by auto
    ultimately show ?thesis
      using nf True i0 by (simp add: sz sr)
  next
    case False
    let ?f = "\<lambda>i. map_option (\<lambda>k. b \<le> k) (at ks (int_of (byte_of i)))"
    let ?p = "\<lambda>i. b \<le> ks ! i"
    have f: "?f (int i) = Some (?p i)" if "i < s" for i
      using that lt l(1) by simp
    have mono: "?p j" if "i \<le> j" "j < s" "?p i" for i j
    proof -
      from sorted_nth_mono [OF srt, of i j] that lt l(1)
      have "ks ! i \<le> ks ! j" by simp
      with that show ?thesis by simp
    qed
    have "\<exists>r. sort_Search_loop ?f (int 0) (int s) = Some (int r) \<and> 0 \<le> r \<and> r \<le> s
              \<and> (\<forall>i<r. \<not> ?p i) \<and> (\<forall>i. r \<le> i \<and> i < s \<longrightarrow> ?p i)"
    proof (rule sort_Search_loop_spec [where n = s and p = ?p])
      show "?f (int i) = Some (?p i)" if "i < s" for i by (rule f [OF that])
      show "?p j" if "i \<le> j" "j < s" "?p i" for i j by (rule mono [OF that])
    qed auto
    then obtain r where r: "sort_Search_loop ?f 0 (int s) = Some (int r)" "r \<le> s"
      "\<forall>i<r. \<not> ?p i" "\<forall>i. r \<le> i \<and> i < s \<longrightarrow> ?p i"
      by auto
    have "takeWhile (\<lambda>k. k < b) (take s ks) = take r (take s ks)"
    proof (rule takeWhile_eq_take_P_nth)
      fix i assume "i < r" "i < length (take s ks)"
      with r show "take s ks ! i < b" by auto
    next
      assume "r < length (take s ks)"
      with r show "\<not> take s ks ! r < b" by auto
    qed
    then have "idx = r" using r lt l(1) by (simp add: idx_def)
    with r have pos: "sort_Search (int s) ?f = Some (int idx)"
      by (simp add: sort_Search_def)
    show ?thesis
      using nf il lt l False
      by (simp add: sz pos sh u1 u2 add.commute del: at_int_of)
  qed
qed

lemma addChild_node16_found:
  fixes b :: byte and c :: "'v artNode" and cs :: "'v artNode option list"
  assumes l: "length ks = 16" "length cs = 16" and srt: "sorted (take s ks)"
    and sz: "size_n m = int s" and lt: "s < 16"
  shows "\<exists>ks' cs'. addChild (Inner Node16 m ks cs) b c
                      = Some (Inner Node16 (m\<lparr>size_n := size_n m + 1\<rparr>) ks' cs')
           \<and> childAt (Inner Node16 (m\<lparr>size_n := size_n m + 1\<rparr>) ks' cs') b = Some (Some c)"
proof -
  define idx where "idx = length (takeWhile (\<lambda>k. k < b) (take s ks))"
  define ks' where "ks' = take idx ks @ [b] @ drop idx (take s ks) @ drop (Suc s) ks"
  define cs' where "cs' = take idx cs @ [Some c] @ drop idx (take s cs) @ drop (Suc s) cs"
  have il: "idx \<le> s" unfolding idx_def using l lt
    by (metis length_take length_takeWhile_le min.absorb2 less_imp_le_nat)
  have a: "addChild (Inner Node16 m ks cs) b c
             = Some (Inner Node16 (m\<lparr>size_n := size_n m + 1\<rparr>) ks' cs')"
    using addChild_node16_gen [OF l srt sz lt, of b c] 
    by (simp add: idx_def ks'_def cs'_def sz add.commute)
  have tk: "take idx ks = takeWhile (\<lambda>k. k < b) (take s ks)"
  proof -
    have "takeWhile (\<lambda>k. k < b) (take s ks) = take idx (take s ks)"
      unfolding idx_def by (rule takeWhile_eq_take)
    also have "\<dots> = take idx ks" using il by (simp add: min_def)
    finally show ?thesis by simp
  qed
  have len: "length ks' = 16" "length cs' = 16"
    using il lt l by (simp_all add: ks'_def cs'_def)
  have li: "length (take idx ks) = idx" "length (take idx cs) = idx" using il lt l by simp_all
  have n1: "ks' ! idx = b" unfolding ks'_def using li(1) by (metis nth_append_length append_Cons)
  have n2: "cs' ! idx = Some c" unfolding cs'_def using li(2) by (metis nth_append_length append_Cons)
  have "take idx ks' = take idx ks" unfolding ks'_def using li(1) by simp
  then have n3: "b \<notin> set (take idx ks')"
    unfolding tk using set_takeWhileD [of b "\<lambda>k. k < b" "take s ks"] by auto
  have ix: "IndexByte ks' b = int idx"
    using IndexByte_first [of idx ks' b] n1 n3 len il lt by simp
  have "childAt (Inner Node16 (m\<lparr>size_n := size_n m + 1\<rparr>) ks' cs') b = Some (Some c)"
    using il lt len n2 by (simp add: childAt_def ix)
  with a show ?thesis by blast
qed

lemma grow4_full:
  assumes "length (prefix_n m) = 10" "length ks = 4" "length cs = 4" "size_n m = 4"
  shows "\<exists>nm. grow (Inner Node4 m ks cs)
           = Some (Inner Node16 nm (ks @ replicate 12 0) (cs @ replicate 12 None))
         \<and> size_n nm = 4 \<and> prefixLen nm = prefixLen m \<and> length (prefix_n nm) = 10"
proof -
  have "grow4_loop ks cs (replicate 16 0) (replicate 16 None) (int 4) (int 0)
          = Some (take 0 (replicate 16 0) @ drop 0 (take 4 ks) @ drop 4 (replicate 16 0),
                  take 0 (replicate 16 None) @ drop 0 (take 4 cs) @ drop 4 (replicate 16 None))"
    by (rule grow4_loop_spec) (simp_all add: assms)
  then have g: "grow4_loop ks cs (replicate 16 0) (replicate 16 None) 4 0
          = Some (ks @ replicate 12 0, cs @ replicate 12 None)"
    using assms by simp
  show ?thesis
    using assms by (simp add: copyMeta_spec g storedPrefix_def)
qed


lemma grow16_loop_total:
  "i \<le> sz \<Longrightarrow> sz \<le> length ks \<Longrightarrow> sz \<le> length cs \<Longrightarrow> length nks = 256 \<Longrightarrow> sz < length ncs \<Longrightarrow>
   \<exists>nks' ncs'. grow16_loop ks cs nks ncs (int sz) (int i) = Some (nks', ncs')
      \<and> length nks' = 256 \<and> length ncs' = length ncs \<and> (\<forall>j. sz < j \<longrightarrow> ncs' ! j = ncs ! j)"
proof (induction "sz - i" arbitrary: i nks ncs)
  case 0
  then have "i = sz" by simp
  with 0 show ?case by (subst grow16_loop.simps) simp
next
  case (Suc d)
  then have lt: "i < sz" by simp
  let ?nks = "nks[unat (ks ! i) := byte_of (int i + 1)]" and ?ncs = "ncs[Suc i := cs ! i]"
  have st: "grow16_loop ks cs nks ncs (int sz) (int i)
              = grow16_loop ks cs ?nks ?ncs (int sz) (int (Suc i))"
    using lt Suc.prems by (subst grow16_loop.simps) (simp add: add.commute)
  have "\<exists>nks' ncs'. grow16_loop ks cs ?nks ?ncs (int sz) (int (Suc i)) = Some (nks', ncs')
      \<and> length nks' = 256 \<and> length ncs' = length ?ncs \<and> (\<forall>j. sz < j \<longrightarrow> ncs' ! j = ?ncs ! j)"
    using Suc.hyps(2) Suc.prems lt by (intro Suc.hyps(1)) simp_all
  then obtain nks' ncs' where r: "grow16_loop ks cs ?nks ?ncs (int sz) (int (Suc i)) = Some (nks', ncs')"
     "length nks' = 256" "length ncs' = length ncs" "\<forall>j. sz < j \<longrightarrow> ncs' ! j = ?ncs ! j"
    by auto
  have "\<forall>j. sz < j \<longrightarrow> ncs' ! j = ncs ! j" using r(4) lt by simp
  with st r show ?case by simp
qed

lemma grow48_loop_total:
  "i \<le> 256 \<Longrightarrow> length ks = 256 \<Longrightarrow> \<forall>k \<in> set ks. unat k < length cs \<Longrightarrow> length ncs = 256 \<Longrightarrow>
   \<exists>ncs'. grow48_loop ks cs ncs (int i) = Some ncs' \<and> length ncs' = 256"
proof (induction "256 - i" arbitrary: i ncs)
  case 0
  then have "i = 256" by simp
  with 0 show ?case by (subst grow48_loop.simps) simp
next
  case (Suc d)
  then have lt: "i < 256" by simp
  have ub: "unat (byte_of (int i)) = i" using lt by simp
  have kc: "unat (ks ! i) < length cs" using Suc.prems lt by simp
  let ?ncs = "ncs[i := cs ! unat (ks ! i)]"
  have st: "grow48_loop ks cs ncs (int i)
              = (if ks ! i = 0 \<or> cs ! unat (ks ! i) = None
                 then grow48_loop ks cs ncs (int (Suc i))
                 else grow48_loop ks cs ?ncs (int (Suc i)))"
    using lt Suc.prems(2,4) kc ub by (subst grow48_loop.simps) (simp add: add.commute)
  from Suc.hyps(1) [of "Suc i" ncs] Suc.hyps(2) Suc.prems lt
  have a: "\<exists>ncs'. grow48_loop ks cs ncs (int (Suc i)) = Some ncs' \<and> length ncs' = 256"
    by simp
  from Suc.hyps(1) [of "Suc i" ?ncs] Suc.hyps(2) Suc.prems lt
  have b: "\<exists>ncs'. grow48_loop ks cs ?ncs (int (Suc i)) = Some ncs' \<and> length ncs' = 256"
    by simp
  from a b show ?case unfolding st by simp
qed

lemma addChild_full4:
  fixes b :: byte and c :: "'v artNode" and cs :: "'v artNode option list"
  assumes a: "length (prefix_n m) = 10" "length ks = 4" "length cs = 4"
    and f: "size_n m = 4" and srt: "sorted ks"
  shows "\<exists>m' ks' cs'. addChild (Inner Node4 m ks cs) b c = Some (Inner Node16 m' ks' cs')
           \<and> size_n m' = size_n m + 1 \<and> prefixLen m' = prefixLen m
           \<and> childAt (Inner Node16 m' ks' cs') b = Some (Some c)"
proof -
  from grow4_full [OF a f] obtain nm where
    g: "grow (Inner Node4 m ks cs) = Some (Inner Node16 nm (ks @ replicate 12 0) (cs @ replicate 12 None))"
    and nm: "size_n nm = 4" "prefixLen nm = prefixLen m"
    by blast
  have full: "isFull Node4 m" using f by (simp add: isFull_def node4Max_def)
  have st: "addChild (Inner Node4 m ks cs) b c
          = addChild (Inner Node16 nm (ks @ replicate 12 0) (cs @ replicate 12 None)) b c"
    by (subst addChild.simps) (simp add: full g del: grow.simps addChild.simps)
  have "\<exists>ks' cs'. addChild (Inner Node16 nm (ks @ replicate 12 0) (cs @ replicate 12 None)) b c
                      = Some (Inner Node16 (nm\<lparr>size_n := size_n nm + 1\<rparr>) ks' cs')
           \<and> childAt (Inner Node16 (nm\<lparr>size_n := size_n nm + 1\<rparr>) ks' cs') b = Some (Some c)"
    by (rule addChild_node16_found [where s = 4]) (simp_all add: a srt nm)
  then obtain ks' cs' where
    r: "addChild (Inner Node16 nm (ks @ replicate 12 0) (cs @ replicate 12 None)) b c
                      = Some (Inner Node16 (nm\<lparr>size_n := size_n nm + 1\<rparr>) ks' cs')"
       "childAt (Inner Node16 (nm\<lparr>size_n := size_n nm + 1\<rparr>) ks' cs') b = Some (Some c)"
    by blast
  have "size_n (nm\<lparr>size_n := size_n nm + 1\<rparr>) = size_n m + 1"
       "prefixLen (nm\<lparr>size_n := size_n nm + 1\<rparr>) = prefixLen m"
    using nm f by simp_all
  with r st show ?thesis by metis
qed


lemma addChild_node48_found:
  fixes b :: byte and c :: "'v artNode" and cs :: "'v artNode option list"
  assumes l: "length ks = 256" "length cs = 49" and nf: "size_n m \<noteq> 48"
    and fr: "1 \<le> j" "j < 49" "cs ! j = None"
  shows "\<exists>ks' cs'. addChild (Inner Node48 m ks cs) b c
                      = Some (Inner Node48 (m\<lparr>size_n := size_n m + 1\<rparr>) ks' cs')
           \<and> length ks' = 256 \<and> length cs' = 49
           \<and> childAt (Inner Node48 (m\<lparr>size_n := size_n m + 1\<rparr>) ks' cs') b = Some (Some c)"
proof -
  from least_free [of 1 j cs] fr l
  obtain j0 where j0: "1 \<le> j0" "j0 \<le> j" "first_free cs 1 = Some (int j0)"
    by auto
  have lt: "j0 < 49" "j0 < 256" using j0 fr by simp_all
  have nf': "\<not> isFull Node48 m" using nf by (simp add: isFull_def node48Max_def)
  define ks' where "ks' = ks[unat b := byte_of (int j0)]"
  define cs' where "cs' = cs[j0 := Some c]"
  have a: "addChild (Inner Node48 m ks cs) b c
          = Some (Inner Node48 (m\<lparr>size_n := size_n m + 1\<rparr>) ks' cs')"
    using nf' j0(3) lt l by (simp add: ks'_def cs'_def)
  have k: "ks' ! unat b = byte_of (int j0)" using l by (simp add: ks'_def)
  have io: "int_of (byte_of (int j0)) = int j0" using lt by simp
  have len: "length ks' = 256" "length cs' = 49" using l by (simp_all add: ks'_def cs'_def)
  have cj: "cs' ! j0 = Some c" using l lt by (simp add: cs'_def)
  have "childAt (Inner Node48 (m\<lparr>size_n := size_n m + 1\<rparr>) ks' cs') b = Some (Some c)"
    using len lt j0(1) by (simp add: childAt_def k io cj)
  with a len show ?thesis by blast
qed

lemma addChild_full16:
  fixes b :: byte and c :: "'v artNode" and cs :: "'v artNode option list"
  assumes a: "length (prefix_n m) = 10" "length ks = 16" "length cs = 16"
    and f: "size_n m = 16"
  shows "\<exists>m' ks' cs'. addChild (Inner Node16 m ks cs) b c = Some (Inner Node48 m' ks' cs')
           \<and> size_n m' = size_n m + 1 \<and> prefixLen m' = prefixLen m
           \<and> childAt (Inner Node48 m' ks' cs') b = Some (Some c)"
proof -
  obtain nm where cm: "copyMeta zeroNode m = Some nm" and nm: "size_n nm = 16" "prefixLen nm = prefixLen m"
    using copyMeta_spec [OF a(1)] f by simp
  have "\<exists>nks ncs. grow16_loop ks cs (replicate 256 0) (replicate 49 None) (int 16) (int 0) = Some (nks, ncs)
      \<and> length nks = 256 \<and> length ncs = length (replicate 49 (None :: 'v artNode option))
      \<and> (\<forall>j. 16 < j \<longrightarrow> ncs ! j = replicate 49 None ! j)"
    by (rule grow16_loop_total) (simp_all add: a)
  then obtain nks ncs where
    gl: "grow16_loop ks cs (replicate 256 0) (replicate 49 None) 16 0 = Some (nks, ncs)"
    and len: "length nks = 256" "length ncs = 49" and fr: "ncs ! 17 = None"
    by auto
  have g: "grow (Inner Node16 m ks cs) = Some (Inner Node48 nm nks ncs)"
    by (simp add: cm gl f)
  have full: "isFull Node16 m" using f by (simp add: isFull_def node16Max_def)
  have st: "addChild (Inner Node16 m ks cs) b c = addChild (Inner Node48 nm nks ncs) b c"
    by (subst addChild.simps) (simp add: full g del: grow.simps addChild.simps)
  have "\<exists>ks' cs'. addChild (Inner Node48 nm nks ncs) b c
                      = Some (Inner Node48 (nm\<lparr>size_n := size_n nm + 1\<rparr>) ks' cs')
           \<and> length ks' = 256 \<and> length cs' = 49
           \<and> childAt (Inner Node48 (nm\<lparr>size_n := size_n nm + 1\<rparr>) ks' cs') b = Some (Some c)"
    by (rule addChild_node48_found [where j = 17]) (simp_all add: len nm fr)
  then obtain ks' cs' where
    r: "addChild (Inner Node48 nm nks ncs) b c
                      = Some (Inner Node48 (nm\<lparr>size_n := size_n nm + 1\<rparr>) ks' cs')"
       "childAt (Inner Node48 (nm\<lparr>size_n := size_n nm + 1\<rparr>) ks' cs') b = Some (Some c)"
    by blast
  have "size_n (nm\<lparr>size_n := size_n nm + 1\<rparr>) = size_n m + 1"
       "prefixLen (nm\<lparr>size_n := size_n nm + 1\<rparr>) = prefixLen m"
    using nm f by simp_all
  with r st show ?thesis by metis
qed

lemma addChild_full48:
  fixes b :: byte and c :: "'v artNode" and cs :: "'v artNode option list"
  assumes a: "length (prefix_n m) = 10" "length ks = 256" "length cs = 49"
    and r: "list_all (\<lambda>k. k \<le> 48) ks" and f: "size_n m = 48"
  shows "\<exists>m' ks' cs'. addChild (Inner Node48 m ks cs) b c = Some (Inner Node256 m' ks' cs')
           \<and> size_n m' = size_n m + 1 \<and> prefixLen m' = prefixLen m
           \<and> childAt (Inner Node256 m' ks' cs') b = Some (Some c)"
proof -
  obtain nm where cm: "copyMeta zeroNode m = Some nm" and nm: "size_n nm = 48" "prefixLen nm = prefixLen m"
    using copyMeta_spec [OF a(1)] f by simp
  have rng: "\<forall>k \<in> set ks. unat k < length cs"
    using r a(3) by (simp add: list_all_iff byte_le_48)
  have "\<exists>ncs. grow48_loop ks cs (replicate 256 None) (int 0) = Some ncs \<and> length ncs = 256"
    using a rng by (intro grow48_loop_total) simp_all
  then obtain ncs where gl: "grow48_loop ks cs (replicate 256 None) 0 = Some ncs"
    and len: "length ncs = 256"
    by auto
  have g: "grow (Inner Node48 m ks cs) = Some (Inner Node256 nm [] ncs)"
    by (simp add: cm gl)
  have full: "isFull Node48 m" using f by (simp add: isFull_def node48Max_def)
  have st: "addChild (Inner Node48 m ks cs) b c = addChild (Inner Node256 nm [] ncs) b c"
    by (subst addChild.simps) (simp add: full g del: grow.simps addChild.simps)
  have nf: "\<not> isFull Node256 nm" using nm by (simp add: isFull_def node256Max_def)
  have ad: "addChild (Inner Node256 nm [] ncs) b c
          = Some (Inner Node256 (nm\<lparr>size_n := size_n nm + 1\<rparr>) [] (ncs[unat b := Some c]))"
    using nf len by simp
  have "length (ncs[unat b := Some c]) = 256" using len by simp
  then have "childAt (Inner Node256 (nm\<lparr>size_n := size_n nm + 1\<rparr>) [] (ncs[unat b := Some c])) b
          = Some ((ncs[unat b := Some c]) ! unat b)"
    by (rule lookup256(1))
  then have ch: "childAt (Inner Node256 (nm\<lparr>size_n := size_n nm + 1\<rparr>) [] (ncs[unat b := Some c])) b
          = Some (Some c)"
    using len by simp
  have "size_n (nm\<lparr>size_n := size_n nm + 1\<rparr>) = size_n m + 1"
       "prefixLen (nm\<lparr>size_n := size_n nm + 1\<rparr>) = prefixLen m"
    using nm f by simp_all
  with ad ch st show ?thesis by metis
qed

subsection \<open>The directory before and after grow\<close>

lemma IndexByte_in:
  "c \<in> set xs \<Longrightarrow>
   \<exists>i. IndexByte xs c = int i \<and> i < length xs \<and> xs ! i = c \<and> c \<notin> set (take i xs)"
proof (induction xs)
  case Nil
  then show ?case by simp
next
  case (Cons x xs)
  show ?case
  proof (cases "x = c")
    case True
    then have "IndexByte (x # xs) c = int 0 \<and> 0 < length (x # xs) \<and> (x # xs) ! 0 = c
               \<and> c \<notin> set (take 0 (x # xs))"
      by simp
    then show ?thesis by blast
  next
    case False
    with Cons.prems have "c \<in> set xs" by simp
    from Cons.IH [OF this] obtain i where
      i: "IndexByte xs c = int i" "i < length xs" "xs ! i = c" "c \<notin> set (take i xs)"
      by blast
    with False have "IndexByte (x # xs) c = int (Suc i) \<and> Suc i < length (x # xs)
               \<and> (x # xs) ! Suc i = c \<and> c \<notin> set (take (Suc i) (x # xs))"
      by (simp add: Let_def)
    then show ?thesis by blast
  qed
qed

lemma IndexByte_append:
  "IndexByte (xs @ ys) c =
     (if c \<in> set xs then IndexByte xs c
      else if c \<in> set ys then int (length xs) + IndexByte ys c else - 1)"
proof (induction xs)
  case Nil
  show ?case using IndexByte_notin [of c ys] by simp
next
  case (Cons x xs)
  show ?case
  proof (cases "c \<in> set ys")
    case True
    from IndexByte_in [OF this] have "0 \<le> IndexByte ys c" by auto
    moreover have "c \<in> set xs \<Longrightarrow> 0 \<le> IndexByte xs c" using IndexByte_in [of c xs] by auto
    ultimately show ?thesis using Cons True by (auto simp: Let_def)
  next
    case False
    have "c \<in> set xs \<Longrightarrow> 0 \<le> IndexByte xs c" using IndexByte_in [of c xs] by auto
    then show ?thesis using Cons False by (auto simp: Let_def)
  qed
qed

lemma childAt_keys:
  assumes ty: "ty = Node4 \<or> ty = Node16" and l: "length cs = length ks"
  shows "childAt (Inner ty m ks cs) b
           = Some (if b \<in> set ks then cs ! nat (IndexByte ks b) else None)"
proof (cases "b \<in> set ks")
  case True
  from IndexByte_in [OF this] obtain i where i: "IndexByte ks b = int i" "i < length ks" by blast
  with True l ty show ?thesis by (auto simp: childAt_def)
next
  case False
  with IndexByte_notin [OF this] ty show ?thesis by (auto simp: childAt_def)
qed

lemma all_zero_replicate: "list_all (\<lambda>k. k = z) xs \<Longrightarrow> xs = replicate (length xs) z"
  by (induction xs) auto

lemma cleared_split:
  assumes "list_all (\<lambda>k. k = z) (drop s xs)" "s \<le> length xs"
  shows "xs = take s xs @ replicate (length xs - s) z"
proof -
  have "xs = take s xs @ drop s xs" by simp
  also have "drop s xs = replicate (length xs - s) z"
    using all_zero_replicate [OF assms(1)] by simp
  finally show ?thesis .
qed

lemma grow4_directory:
  fixes cs :: "'v artNode option list"
  assumes a: "length (prefix_n m) = 10" "length ks = 4" "length cs = 4"
    and sz: "size_n m = int s" "s \<le> 4"
    and z: "list_all (\<lambda>k. k = 0) (drop s ks)" "list_all (\<lambda>c. c = None) (drop s cs)"
  shows "\<exists>nm. grow (Inner Node4 m ks cs)
                  = Some (Inner Node16 nm (ks @ replicate 12 0) (cs @ replicate 12 None))
           \<and> copyMeta zeroNode m = Some nm"
    and "childAt (Inner Node16 nm (ks @ replicate 12 0) (cs @ replicate 12 None)) b
           = childAt (Inner Node4 m ks cs) b"
proof -
  have k: "ks = take s ks @ replicate (4 - s) 0" using cleared_split [OF z(1)] a sz by simp
  have c: "cs = take s cs @ replicate (4 - s) None" using cleared_split [OF z(2)] a sz by simp
  have "grow4_loop ks cs (replicate 16 0) (replicate 16 None) (int s) (int 0)
          = Some (take 0 (replicate 16 0) @ drop 0 (take s ks) @ drop s (replicate 16 0),
                  take 0 (replicate 16 None) @ drop 0 (take s cs) @ drop s (replicate 16 None))"
    using a sz by (intro grow4_loop_spec) simp_all
  then have g0: "grow4_loop ks cs (replicate 16 0) (replicate 16 None) (int s) 0
          = Some (take s ks @ replicate (16 - s) 0, take s cs @ replicate (16 - s) None)"
    by simp
  have r: "replicate (16 - s) x = replicate (4 - s) x @ replicate 12 x" for x :: 'b
    using sz(2) by (simp add: replicate_add [symmetric])
  have "take s ks @ replicate (16 - s) 0 = (take s ks @ replicate (4 - s) 0) @ replicate 12 0"
    by (simp add: r)
  then have k': "take s ks @ replicate (16 - s) 0 = ks @ replicate 12 0" using k by simp
  have "take s cs @ replicate (16 - s) None = (take s cs @ replicate (4 - s) None) @ replicate 12 None"
    by (simp add: r)
  then have c': "take s cs @ replicate (16 - s) None = cs @ replicate 12 None" using c by simp
  have g: "grow4_loop ks cs (replicate 16 0) (replicate 16 None) (size_n m) 0
          = Some (ks @ replicate 12 0, cs @ replicate 12 None)"
    using g0 unfolding k' c' sz(1) .
  show "\<exists>nm. grow (Inner Node4 m ks cs)
                  = Some (Inner Node16 nm (ks @ replicate 12 0) (cs @ replicate 12 None))
           \<and> copyMeta zeroNode m = Some nm"
    using a by (simp add: copyMeta_spec g)
  have l16: "length (cs @ replicate 12 None) = length (ks @ replicate 12 0)" using a by simp
  have l4: "length cs = length ks" using a by simp
  show "childAt (Inner Node16 nm (ks @ replicate 12 0) (cs @ replicate 12 None)) b
           = childAt (Inner Node4 m ks cs) b"
  proof (cases "b \<in> set ks")
    case True
    from IndexByte_in [OF this] obtain i where i: "IndexByte ks b = int i" "i < length ks" by blast
    then have "(cs @ replicate 12 None) ! i = cs ! i" using l4 by (simp add: nth_append)
    with True i show ?thesis
      by (simp add: childAt_keys [OF _ l16] childAt_keys [OF _ l4] IndexByte_append)
  next
    case False
    show ?thesis
    proof (cases "b = 0")
      case True
      have "IndexByte (replicate 12 0) (0 :: byte) = 0" by (simp add: eval_nat_numeral)
      with False True a show ?thesis
        by (simp add: childAt_keys [OF _ l16] childAt_keys [OF _ l4] IndexByte_append nth_append)
    next
      case nz: False
      with False show ?thesis
        by (simp add: childAt_keys [OF _ l16] childAt_keys [OF _ l4])
    qed
  qed
qed


lemma nth_in_take: "i < s \<Longrightarrow> i < length xs \<Longrightarrow> xs ! i \<in> set (take s xs)"
  by (auto simp: in_set_conv_nth intro!: exI [of _ i])

lemma grow16_loop_spec:
  assumes b: "sz \<le> length ks" "sz \<le> length cs" "sz < 256" and d: "distinct (take sz ks)"
  shows "i \<le> sz \<Longrightarrow> length nks = 256 \<Longrightarrow> sz < length ncs \<Longrightarrow>
   \<exists>nks'. grow16_loop ks cs nks ncs (int sz) (int i)
             = Some (nks', take (Suc i) ncs @ drop i (take sz cs) @ drop (Suc sz) ncs)
      \<and> length nks' = 256
      \<and> (\<forall>t. i \<le> t \<and> t < sz \<longrightarrow> nks' ! unat (ks ! t) = of_nat (Suc t))
      \<and> (\<forall>j<256. (\<forall>t. i \<le> t \<and> t < sz \<longrightarrow> unat (ks ! t) \<noteq> j) \<longrightarrow> nks' ! j = nks ! j)"
proof (induction "sz - i" arbitrary: i nks ncs)
  case 0
  then have "i = sz" by simp
  with 0 show ?case by (subst grow16_loop.simps) auto
next
  case (Suc n)
  then have lt: "i < sz" by simp
  let ?nks = "nks[unat (ks ! i) := of_nat (Suc i)]" and ?ncs = "ncs[Suc i := cs ! i]"
  have bo: "byte_of (int i + 1) = of_nat (Suc i)" by (simp add: byte_of_def add.commute)
  have st: "grow16_loop ks cs nks ncs (int sz) (int i)
              = grow16_loop ks cs ?nks ?ncs (int sz) (int (Suc i))"
    using lt Suc.prems b bo by (subst grow16_loop.simps) (simp add: add.commute)
  have "\<exists>nks'. grow16_loop ks cs ?nks ?ncs (int sz) (int (Suc i))
             = Some (nks', take (Suc (Suc i)) ?ncs @ drop (Suc i) (take sz cs) @ drop (Suc sz) ?ncs)
      \<and> length nks' = 256
      \<and> (\<forall>t. Suc i \<le> t \<and> t < sz \<longrightarrow> nks' ! unat (ks ! t) = of_nat (Suc t))
      \<and> (\<forall>j<256. (\<forall>t. Suc i \<le> t \<and> t < sz \<longrightarrow> unat (ks ! t) \<noteq> j) \<longrightarrow> nks' ! j = ?nks ! j)"
    using Suc.hyps(2) Suc.prems lt by (intro Suc.hyps(1)) simp_all
  then obtain nks' where r:
    "grow16_loop ks cs ?nks ?ncs (int sz) (int (Suc i))
             = Some (nks', take (Suc (Suc i)) ?ncs @ drop (Suc i) (take sz cs) @ drop (Suc sz) ?ncs)"
    "length nks' = 256"
    "\<forall>t. Suc i \<le> t \<and> t < sz \<longrightarrow> nks' ! unat (ks ! t) = of_nat (Suc t)"
    "\<forall>j<256. (\<forall>t. Suc i \<le> t \<and> t < sz \<longrightarrow> unat (ks ! t) \<noteq> j) \<longrightarrow> nks' ! j = ?nks ! j"
    by blast
  have c1: "take (Suc (Suc i)) ?ncs = take (Suc i) ncs @ [cs ! i]"
    using lt Suc.prems by (simp add: take_Suc_conv_app_nth [of "Suc i"])
  have c2: "drop (Suc sz) ?ncs = drop (Suc sz) ncs" using lt by simp
  have c3: "drop i (take sz cs) = cs ! i # drop (Suc i) (take sz cs)"
    using lt b by (simp add: Cons_nth_drop_Suc [symmetric])
  have cs_eq: "take (Suc (Suc i)) ?ncs @ drop (Suc i) (take sz cs) @ drop (Suc sz) ?ncs
               = take (Suc i) ncs @ drop i (take sz cs) @ drop (Suc sz) ncs"
    unfolding c1 c2 c3 by simp
  have ne: "unat (ks ! t) \<noteq> unat (ks ! i)" if "Suc i \<le> t" "t < sz" for t
  proof
    assume "unat (ks ! t) = unat (ks ! i)"
    then have "ks ! t = ks ! i" by (rule word_unat_eq_iff [THEN iffD2])
    then have "t = i" using nth_eq_iff_index_eq [OF d, of t i] that lt b by simp
    with that show False by simp
  qed
  have k1: "nks' ! unat (ks ! t) = of_nat (Suc t)" if "i \<le> t" "t < sz" for t
  proof (cases "t = i")
    case True
    have "\<forall>t. Suc i \<le> t \<and> t < sz \<longrightarrow> unat (ks ! t) \<noteq> unat (ks ! i)" using ne by blast
    with r(4) have "nks' ! unat (ks ! i) = ?nks ! unat (ks ! i)" by simp
    with True Suc.prems show ?thesis by simp
  next
    case False
    with that r(3) show ?thesis by simp
  qed
  have k2: "nks' ! j = nks ! j" if "j < 256" "\<forall>t. i \<le> t \<and> t < sz \<longrightarrow> unat (ks ! t) \<noteq> j" for j
  proof -
    from that have "\<forall>t. Suc i \<le> t \<and> t < sz \<longrightarrow> unat (ks ! t) \<noteq> j" by simp
    with r(4) that have "nks' ! j = ?nks ! j" by simp
    moreover from that lt have "unat (ks ! i) \<noteq> j" by simp
    ultimately show ?thesis by simp
  qed
  show ?case
    unfolding st r(1) cs_eq using r(2) k1 k2 by simp
qed

lemma storedPrefix_copy:
  "length (prefix_n m) = 10 \<Longrightarrow>
   storedPrefix \<lparr>size_n = size_n m, prefixLen = prefixLen m,
                 prefix_n = storedPrefix m @ replicate (10 - length (storedPrefix m)) 0\<rparr>
     = storedPrefix m"
  by (simp add: storedPrefix_def maxPrefixLen_def min_def)

lemma copyMeta_zero:
  assumes "length (prefix_n m) = 10"
  shows "\<exists>nm. copyMeta zeroNode m = Some nm \<and> size_n nm = size_n m \<and> prefixLen nm = prefixLen m
           \<and> storedPrefix nm = storedPrefix m \<and> length (prefix_n nm) = 10"
proof -
  have "length (storedPrefix m) \<le> 10" using assms by (simp add: storedPrefix_def)
  then show ?thesis
    using copyMeta_spec [OF assms] storedPrefix_copy [OF assms] by simp
qed

lemma grow16_directory:
  fixes cs :: "'v artNode option list"
  assumes a: "length (prefix_n m) = 10" "length ks = 16" "length cs = 16"
    and sz: "size_n m = int s" "s \<le> 16" and d: "distinct (take s ks)"
    and z: "list_all (\<lambda>k. k = 0) (drop s ks)" "list_all (\<lambda>c. c = None) (drop s cs)"
  shows "\<exists>nm nks ncs. grow (Inner Node16 m ks cs) = Some (Inner Node48 nm nks ncs)
           \<and> copyMeta zeroNode m = Some nm
           \<and> (\<forall>b. childAt (Inner Node48 nm nks ncs) b = childAt (Inner Node16 m ks cs) b)"
proof -
  obtain nm where cm: "copyMeta zeroNode m = Some nm" using copyMeta_zero [OF a(1)] by blast
  have "\<exists>nks'. grow16_loop ks cs (replicate 256 0) (replicate 49 None) (int s) (int 0)
             = Some (nks', take (Suc 0) (replicate 49 None) @ drop 0 (take s cs)
                             @ drop (Suc s) (replicate 49 None))
      \<and> length nks' = 256
      \<and> (\<forall>t. 0 \<le> t \<and> t < s \<longrightarrow> nks' ! unat (ks ! t) = of_nat (Suc t))
      \<and> (\<forall>j<256. (\<forall>t. 0 \<le> t \<and> t < s \<longrightarrow> unat (ks ! t) \<noteq> j) \<longrightarrow> nks' ! j = replicate 256 0 ! j)"
    using a sz d by (intro grow16_loop_spec) simp_all
  then obtain nks where
    gl: "grow16_loop ks cs (replicate 256 0) (replicate 49 None) (int s) 0
           = Some (nks, None # take s cs @ replicate (48 - s) None)"
    and ln: "length nks = 256"
    and hit: "\<And>t. t < s \<Longrightarrow> nks ! unat (ks ! t) = of_nat (Suc t)"
    and miss: "\<And>j. j < 256 \<Longrightarrow> (\<forall>t. t < s \<longrightarrow> unat (ks ! t) \<noteq> j) \<Longrightarrow> nks ! j = 0"
    by (auto simp: eval_nat_numeral(3) [of "num.Bit0 (num.Bit0 (num.Bit0 (num.Bit0 (num.Bit1 num.One))))"])
  define ncs where "ncs = None # take s cs @ replicate (48 - s) None"
  have lc: "length ncs = 49" using a sz by (simp add: ncs_def)
  have g: "grow (Inner Node16 m ks cs) = Some (Inner Node48 nm nks ncs)"
    by (simp add: cm gl sz ncs_def)
  have l16: "length cs = length ks" using a by simp
  have "childAt (Inner Node48 nm nks ncs) b = childAt (Inner Node16 m ks cs) b" for b
  proof (cases "b \<in> set (take s ks)")
    case True
    then obtain t where t: "t < s" "ks ! t = b"
      using a sz by (auto simp: in_set_conv_nth)
    have "b \<notin> set (take t ks)"
    proof
      assume "b \<in> set (take t ks)"
      then obtain u where u: "u < t" "ks ! u = b" using a sz t by (auto simp: in_set_conv_nth)
      then have "u = t" using nth_eq_iff_index_eq [OF d, of u t] t a sz by simp
      with u show False by simp
    qed
    then have ix: "IndexByte ks b = int t" using IndexByte_first [of t ks b] t a sz by simp
    have bk: "b \<in> set ks" using True by (rule in_set_takeD)
    have c16: "childAt (Inner Node16 m ks cs) b = Some (cs ! t)"
      using bk by (simp add: childAt_keys [OF _ l16] ix)
    define j where "j = Suc t"
    have j: "j < 49" "0 < j" "j < 256" using t sz by (simp_all add: j_def)
    have n: "nks ! unat b = of_nat j" using hit [OF t(1)] t(2) by (simp add: j_def)
    have u: "unat (of_nat j :: byte) = j" using j by simp
    have nz: "(of_nat j :: byte) \<noteq> 0"
    proof
      assume "(of_nat j :: byte) = 0"
      then have "unat (of_nat j :: byte) = 0" by simp
      with u j show False by simp
    qed
    have nt: "ncs ! j = cs ! t" using t a sz by (simp add: j_def ncs_def nth_append)
    have "childAt (Inner Node48 nm nks ncs) b = Some (ncs ! j)"
      using ln lc j nz by (simp add: childAt_def n u int_of_unat)
    with c16 nt show ?thesis by simp
  next
    case False
    have "\<forall>t. t < s \<longrightarrow> unat (ks ! t) \<noteq> unat b"
    proof (intro allI impI notI)
      fix t assume t: "t < s" "unat (ks ! t) = unat b"
      then have "ks ! t = b" by (intro word_unat_eq_iff [THEN iffD2])
      with t a sz have "b \<in> set (take s ks)" by (auto simp: in_set_conv_nth)
      with False show False by simp
    qed
    then have "nks ! unat b = 0" by (intro miss) simp_all
    then have c48: "childAt (Inner Node48 nm nks ncs) b = Some None"
      using ln lc by (simp add: childAt_def)
    have c16: "childAt (Inner Node16 m ks cs) b = Some None"
    proof (cases "b \<in> set ks")
      case True
      from IndexByte_in [OF this] obtain i where
        i: "IndexByte ks b = int i" "i < length ks" "ks ! i = b" by blast
      have "s \<le> i"
      proof (rule ccontr)
        assume "\<not> s \<le> i"
        then have "ks ! i \<in> set (take s ks)" using i by (intro nth_in_take) simp_all
        with False i show False by simp
      qed
      moreover have "cs = take s cs @ replicate (length cs - s) None"
        using cleared_split [OF z(2)] a sz by simp
      ultimately have "cs ! i = None"
        using i a sz by (metis (no_types, lifting) length_take min.absorb2 nth_append nth_replicate
            not_less add_diff_inverse_nat l16 length_append length_replicate nat_add_left_cancel_less)
      with True i show ?thesis by (simp add: childAt_keys [OF _ l16])
    next
      case nk: False
      then show ?thesis by (simp add: childAt_keys [OF _ l16])
    qed
    with c48 show ?thesis by simp
  qed
  with g cm show ?thesis by blast
qed


lemma grow48_loop_spec:
  "i \<le> 256 \<Longrightarrow> length ks = 256 \<Longrightarrow> \<forall>k \<in> set ks. unat k < length cs \<Longrightarrow> length ncs = 256 \<Longrightarrow>
   \<exists>ncs'. grow48_loop ks cs ncs (int i) = Some ncs' \<and> length ncs' = 256
      \<and> (\<forall>j<256. ncs' ! j = (if i \<le> j \<and> ks ! j \<noteq> 0 \<and> cs ! unat (ks ! j) \<noteq> None
                              then cs ! unat (ks ! j) else ncs ! j))"
proof (induction "256 - i" arbitrary: i ncs)
  case 0
  then have "i = 256" by simp
  with 0 show ?case by (subst grow48_loop.simps) auto
next
  case (Suc d)
  then have lt: "i < 256" by simp
  have ub: "unat (byte_of (int i)) = i" using lt by simp
  have kc: "unat (ks ! i) < length cs" using Suc.prems lt by simp
  define hit where "hit = (ks ! i \<noteq> 0 \<and> cs ! unat (ks ! i) \<noteq> None)"
  define ncs1 where "ncs1 = (if hit then ncs[i := cs ! unat (ks ! i)] else ncs)"
  have st: "grow48_loop ks cs ncs (int i) = grow48_loop ks cs ncs1 (int (Suc i))"
    using lt Suc.prems(2,4) kc ub
    by (subst grow48_loop.simps) (auto simp: add.commute hit_def ncs1_def)
  have l1: "length ncs1 = 256" using Suc.prems by (simp add: ncs1_def)
  have "\<exists>ncs'. grow48_loop ks cs ncs1 (int (Suc i)) = Some ncs' \<and> length ncs' = 256
      \<and> (\<forall>j<256. ncs' ! j = (if Suc i \<le> j \<and> ks ! j \<noteq> 0 \<and> cs ! unat (ks ! j) \<noteq> None
                              then cs ! unat (ks ! j) else ncs1 ! j))"
    using Suc.hyps(2) Suc.prems(2,3) lt l1 by (intro Suc.hyps(1)) simp_all
  then obtain ncs' where r: "grow48_loop ks cs ncs1 (int (Suc i)) = Some ncs'" "length ncs' = 256"
    "\<forall>j<256. ncs' ! j = (if Suc i \<le> j \<and> ks ! j \<noteq> 0 \<and> cs ! unat (ks ! j) \<noteq> None
                              then cs ! unat (ks ! j) else ncs1 ! j)"
    by blast
  have "ncs' ! j = (if i \<le> j \<and> ks ! j \<noteq> 0 \<and> cs ! unat (ks ! j) \<noteq> None
                              then cs ! unat (ks ! j) else ncs ! j)" if "j < 256" for j
  proof (cases "j = i")
    case True
    with r(3) that have "ncs' ! j = ncs1 ! i" by simp
    also have "\<dots> = (if hit then cs ! unat (ks ! i) else ncs ! i)"
      using lt Suc.prems(4) by (simp add: ncs1_def)
    finally show ?thesis using True by (simp add: hit_def)
  next
    case False
    then have "ncs1 ! j = ncs ! j" by (simp add: ncs1_def)
    with r(3) that False show ?thesis by auto
  qed
  with st r show ?case by simp
qed

lemma childAt_node48:
  assumes "length ks = 256" "length cs = 49" "list_all (\<lambda>k. k \<le> 48) ks"
  shows "childAt (Inner Node48 m ks cs) b
           = Some (if ks ! unat b = 0 then None else cs ! unat (ks ! unat b))"
proof -
  have "ks ! unat b \<in> set ks" using assms(1) by simp
  with assms(3) have "unat (ks ! unat b) < 49" by (simp add: list_all_iff byte_le_48)
  with assms show ?thesis by (auto simp: childAt_def)
qed

lemma grow48_directory:
  fixes cs :: "'v artNode option list"
  assumes a: "length (prefix_n m) = 10" "length ks = 256" "length cs = 49"
    and r: "list_all (\<lambda>k. k \<le> 48) ks"
  shows "\<exists>nm ncs. grow (Inner Node48 m ks cs) = Some (Inner Node256 nm [] ncs)
           \<and> copyMeta zeroNode m = Some nm
           \<and> (\<forall>b. childAt (Inner Node256 nm [] ncs) b = childAt (Inner Node48 m ks cs) b)"
proof -
  obtain nm where cm: "copyMeta zeroNode m = Some nm" using copyMeta_zero [OF a(1)] by blast
  have rng: "\<forall>k \<in> set ks. unat k < length cs"
    using r a(3) by (simp add: list_all_iff byte_le_48)
  have "\<exists>ncs'. grow48_loop ks cs (replicate 256 None) (int 0) = Some ncs' \<and> length ncs' = 256
      \<and> (\<forall>j<256. ncs' ! j = (if 0 \<le> j \<and> ks ! j \<noteq> 0 \<and> cs ! unat (ks ! j) \<noteq> None
                              then cs ! unat (ks ! j) else replicate 256 None ! j))"
    using a rng by (intro grow48_loop_spec) simp_all
  then obtain ncs where gl: "grow48_loop ks cs (replicate 256 None) 0 = Some ncs"
    and len: "length ncs = 256"
    and v: "\<And>j. j < 256 \<Longrightarrow> ncs ! j = (if ks ! j \<noteq> 0 \<and> cs ! unat (ks ! j) \<noteq> None
                              then cs ! unat (ks ! j) else None)"
    by auto
  have g: "grow (Inner Node48 m ks cs) = Some (Inner Node256 nm [] ncs)"
    by (simp add: cm gl)
  have "childAt (Inner Node256 nm [] ncs) b = childAt (Inner Node48 m ks cs) b" for b
    using v [of "unat b"] by (auto simp: lookup256(1) [OF len] childAt_node48 [OF a(2,3) r])
  with g cm show ?thesis by blast
qed

section \<open>The claims about single operations\<close>

subsection \<open>The empty key\<close>

text \<open>
  C10. Inserting the empty key into the empty tree gives a tree of size 1 whose root is
  the leaf, and Search finds the value. Delete of the empty key returns false and
  leaves root and size as they are, on every tree and for every layout \<open>hdr\<close>.
\<close>

theorem empty_key_insert_search_delete:
  "Insert newArt [] v = Some \<lparr>root = Some (Leaf [] v), size_t = 1\<rparr>
   \<and> Search \<lparr>root = Some (Leaf [] v), size_t = 1\<rparr> [] = Some v
   \<and> Size \<lparr>root = Some (Leaf [] v), size_t = 1\<rparr> = 1
   \<and> Delete hdr t [] = Some (False, t)"
proof -
  have "Delete hdr t [] = Some (False, t)"
    by (cases "root t") (simp_all add: Delete_def)
  then show ?thesis
    by (simp add: Insert_def newArt_def newLeafNode_def Search_def Size_def)
qed

text \<open>
  C10, as stated, goes on: so the entry of the empty key can never be removed. That
  fails. Insert the empty key, then the one-byte keys \<open>0\<close> to \<open>15\<close>. The leaf split
  puts the empty key and the key \<open>0\<close> both under the edge byte 0; up to the key
  \<open>14\<close> the root is a node16 and Search finds the empty key. The key \<open>15\<close> grows the
  root to a node48, where \<open>keys[0]\<close> is written twice and the slot of the empty key is
  no longer referenced. Delete of the key \<open>15\<close> returns true and shrinks the root along
  \<open>keys\<close>: the leaf of the empty key is not copied. Search finds nothing for the empty
  key, Each visits fifteen leaves, none with the empty key, and the size is 16.
\<close>

theorem empty_key_removed_counterexample:
  "(Inserts newArt (take 16 emptyKeySeq) \<bind> (\<lambda>t. Some (Size t, Search t [])))
     = Some (16, Some (Some 100))
   \<and> (Inserts newArt emptyKeySeq \<bind> (\<lambda>t. Delete zeroHdr t [15])
        \<bind> (\<lambda>(b, t). Some (b, Size t, Search t [], map_option leafKeys (Each t))))
     = Some (True, 16, Some None,
             Some [[0], [1], [2], [3], [4], [5], [6], [7], [8], [9], [10], [11], [12], [13], [14]])"
  by code_simp

subsection \<open>The collapse of a node4\<close>

lemma shrink_merge_total:
  assumes lm: "length (prefix_n pm) = 10" and lc: "length (prefix_n cm) = 10"
    and p0: "0 \<le> prefixLen pm" and ks: "ks \<noteq> []"
  shows "\<exists>cm'. shrink_merge pm ks cm = Some cm'
           \<and> prefixLen cm' = prefixLen cm + prefixLen pm + 1
           \<and> size_n cm' = size_n cm
           \<and> length (prefix_n cm') = 10"
proof (cases "0 \<le> prefixLen cm")
  case True
  from shrink_merge_spec [OF lm lc p0 True ks] show ?thesis by blast
next
  case False
  obtain lp where lp: "prefixLen pm = int lp" using p0 by (metis nat_0_le)
  show ?thesis
  proof (cases "lp < 10")
    case ge: False
    then show ?thesis
      using lm lc lp
      by (simp add: shrink_merge_def maxPrefixLen_def Let_def)
  next
    case True
    let ?P = "prefix_n pm" and ?C = "prefix_n cm"
    let ?b1 = "?P[lp := ks ! 0]"
    have s1: "(if prefixLen pm < maxPrefixLen
               then do { k0 \<leftarrow> at ks 0; b \<leftarrow> store ?P (prefixLen pm) k0; Some (b, prefixLen pm + 1) }
               else Some (?P, prefixLen pm)) = Some (?b1, int (Suc lp))"
      using True lm lp ks by (simp add: maxPrefixLen_def)
    have n: "nat (int (Suc lp)) = Suc lp" by simp
    show ?thesis
    proof (cases "Suc lp < 10")
      case False
      then show ?thesis
        unfolding shrink_merge_def Let_def s1 using lc
        by (simp add: maxPrefixLen_def del: of_nat_Suc)
    next
      case lt9: True
      then show ?thesis
        unfolding shrink_merge_def Let_def s1 using lc lm
        by (simp add: n maxPrefixLen_def del: of_nat_Suc of_nat_min)
    qed
  qed
qed

text \<open>
  A node with a negative \<open>prefixLen\<close> arises from the leaf split below the end of a
  key: after the keys \<open>a\<close>, \<open>aa\<close> and \<open>a\<close> followed by a zero byte, the child of the
  root under the edge byte 0 is a node4 with \<open>prefixLen = -1\<close>.
\<close>

lemma negative_prefixLen_reachable:
  "Inserts newArt [([0x61], Some (1::nat)), ([0x61, 0x61], Some 2), ([0x61, 0], Some 3)]
   = Some \<lparr>root = Some (Inner Node4 \<lparr>size_n = 2, prefixLen = 1, prefix_n = [0x61, 0, 0, 0, 0, 0, 0, 0, 0, 0]\<rparr>
        [0, 0x61, 0, 0]
        [Some (Inner Node4 \<lparr>size_n = 2, prefixLen = - 1, prefix_n = [0, 0, 0, 0, 0, 0, 0, 0, 0, 0]\<rparr>
            [0, 0, 0, 0]
            [Some (Leaf [0x61] (Some 1)), Some (Leaf [0x61, 0] (Some 3)), None, None]),
         Some (Leaf [0x61, 0x61] (Some 2)), None, None]), size_t = 3\<rparr>"
  by code_simp




subsection \<open>addChild on a node at capacity\<close>




subsection \<open>grow\<close>




end
